theory Spec2Isabelle
  imports Complex_Main "HOL-Library.Multiset"
begin

section \<open>Chord inference for the Basic Pitch server (chord_inference.py)\<close>

text \<open>
  A shallow embedding of the post-processing pipeline of \<^verbatim>\<open>chord_inference.py\<close>.
  Python floats are idealised as real numbers (finite values, exact arithmetic): the
  constants \<^verbatim>\<open>0.06\<close>, \<^verbatim>\<open>0.3\<close>, \<^verbatim>\<open>0.4\<close>, ... are the decimal
  fractions they are written as; NaN and the infinities are not values of the model.
  The one place where the rounding of a double addition is modelled is the sampling grid
  of the chord window smoother (\<open>timeline_points_fl\<close>, \<open>smooth_chord_progression_fl\<close>),
  where it changes the number of grid points.
  Python's unbounded integers are \<^typ>\<open>int\<close>, strings are \<^typ>\<open>string\<close>, logging and the
  per-run statistics counters are left out (they do not influence the returned value).

  The three dataclasses share field names (\<^verbatim>\<open>onset\<close>, \<^verbatim>\<open>offset\<close>,
  \<^verbatim>\<open>confidence\<close>); the fields carry the prefix \<open>n_\<close> (NoteEvent), \<open>c_\<close> (ChordEvent)
  or \<open>k_\<close> (KeyEstimate) where they would clash.
\<close>

subsection \<open>Data structures\<close>

record NoteEvent =
  n_onset :: real
  n_offset :: real
  pitch :: int
  n_confidence :: real

definition duration :: "NoteEvent \<Rightarrow> real" where
  "duration n = n_offset n - n_onset n"

definition pitch_class :: "NoteEvent \<Rightarrow> int" where
  "pitch_class n = pitch n mod 12"

record ChordEvent =
  c_onset :: real
  c_offset :: real
  chord_symbol :: string
  c_confidence :: real
  pitch_classes :: "int set"
  root_pc :: int
  chord_type :: string

record KeyEstimate =
  key_pc :: int
  mode :: string
  k_confidence :: real

subsection \<open>Configuration (class ChordInferenceConfig)\<close>

definition MEDIAN_FILTER_SIZE :: nat where "MEDIAN_FILTER_SIZE = 3"
definition MIN_NOTE_DURATION :: real where "MIN_NOTE_DURATION = 0.06"
definition WINDOW_SIZE :: real where "WINDOW_SIZE = 2.0"
definition WINDOW_OVERLAP :: real where "WINDOW_OVERLAP = 0.2"
definition MIN_NOTES_PER_CHORD :: nat where "MIN_NOTES_PER_CHORD = 2"
definition KEY_FILTER_CONFIDENCE_THRESHOLD :: real where "KEY_FILTER_CONFIDENCE_THRESHOLD = 0.15"
definition MIN_CHORD_DURATION :: real where "MIN_CHORD_DURATION = 0.3"
definition MERGE_THRESHOLD :: real where "MERGE_THRESHOLD = 0.4"

definition FUNCTIONAL_CHORDS :: "string set" where
  "FUNCTIONAL_CHORDS = {''major'', ''minor'', ''sus2'', ''sus4'', ''7'', ''m7'', ''maj7'',
     ''m11'', ''dim'', ''aug'', ''add9'', ''6''}"

subsection \<open>Key detector (class KeyDetector)\<close>

definition MAJOR_PROFILE :: "real list" where
  "MAJOR_PROFILE = [6.35, 2.23, 3.48, 2.33, 4.38, 4.09, 2.52, 5.19, 2.39, 3.66, 2.29, 2.88]"

definition MINOR_PROFILE :: "real list" where
  "MINOR_PROFILE = [6.33, 2.68, 3.52, 5.38, 2.60, 3.53, 2.54, 4.75, 3.98, 2.69, 3.34, 3.17]"

definition major_profile :: "real list" where
  "major_profile = map (\<lambda>x. x / sum_list MAJOR_PROFILE) MAJOR_PROFILE"

definition minor_profile :: "real list" where
  "minor_profile = map (\<lambda>x. x / sum_list MINOR_PROFILE) MINOR_PROFILE"

text \<open>\<^verbatim>\<open>np.roll(a, shift)\<close> moves the entry at index \<open>i\<close> to index
  \<open>(i + shift) mod n\<close>.\<close>

definition np_roll :: "real list \<Rightarrow> nat \<Rightarrow> real list" where
  "np_roll a shift =
     (let n = length a in map (\<lambda>j. a ! ((j + n - shift mod n) mod n)) [0..<n])"

text \<open>\<^verbatim>\<open>np.corrcoef(x, y)[0, 1]\<close>: the covariance divided by both standard deviations
  and clipped to \<open>[-1, 1]\<close>; the result is NaN (here \<open>None\<close>) when one of the variances
  is zero.\<close>

definition np_mean :: "real list \<Rightarrow> real" where
  "np_mean xs = sum_list xs / real (length xs)"

definition np_cov :: "real list \<Rightarrow> real list \<Rightarrow> real" where
  "np_cov xs ys =
     sum_list (map (\<lambda>(x, y). (x - np_mean xs) * (y - np_mean ys)) (zip xs ys))
     / (real (length xs) - 1)"

definition np_corrcoef :: "real list \<Rightarrow> real list \<Rightarrow> real option" where
  "np_corrcoef xs ys =
     (if np_cov xs xs = 0 \<or> np_cov ys ys = 0 then None
      else Some (max (- 1) (min 1
             (np_cov xs ys / sqrt (np_cov xs xs) / sqrt (np_cov ys ys)))))"

definition correlate_with_profile :: "real list \<Rightarrow> nat \<Rightarrow> real list \<Rightarrow> real" where
  "correlate_with_profile pc_weights root_pc_shift profile =
     (let rotated_profile = np_roll profile root_pc_shift
      in case np_corrcoef pc_weights rotated_profile of
           None \<Rightarrow> 0.0
         | Some correlation \<Rightarrow> correlation)"

text \<open>\<^verbatim>\<open>pc_weights[pc] += weight\<close> on the 12-bin array; \<open>pc\<close> is
  \<^verbatim>\<open>note.pitch % 12\<close>, which is in \<open>[0, 12)\<close>.\<close>

definition histogram_add :: "real list \<Rightarrow> NoteEvent \<Rightarrow> real list" where
  "histogram_add pc_weights note =
     (let pc = nat (pitch_class note);
          weight = duration note * n_confidence note
      in pc_weights[pc := pc_weights ! pc + weight])"

text \<open>One pass of \<^verbatim>\<open>for root_pc in range(12)\<close> on the state
  \<^verbatim>\<open>(best_correlation, best_key_pc, best_mode)\<close>: major first, then minor.\<close>

type_synonym key_state = "real \<times> int \<times> string"

definition key_step :: "real list \<Rightarrow> key_state \<Rightarrow> nat \<Rightarrow> key_state" where
  "key_step pc_weights st root_pc_shift =
     (let major_correlation = correlate_with_profile pc_weights root_pc_shift major_profile;
          st = (if major_correlation > fst st
                then (major_correlation, int root_pc_shift, ''major'') else st);
          minor_correlation = correlate_with_profile pc_weights root_pc_shift minor_profile;
          st = (if minor_correlation > fst st
                then (minor_correlation, int root_pc_shift, ''minor'') else st)
      in st)"

text \<open>The normalised histogram the candidates are correlated with.\<close>

definition key_histogram :: "NoteEvent list \<Rightarrow> bool \<Rightarrow> real list" where
  "key_histogram note_events exclude_short_notes =
     (let filtered_events =
            (if exclude_short_notes
             then (let filtered = filter (\<lambda>note. duration note \<ge> MIN_NOTE_DURATION) note_events
                   in if filtered = [] then note_events else filtered)
             else note_events)
      in foldl histogram_add (replicate 12 0) filtered_events)"

text \<open>The index \<^verbatim>\<open>key_names[best_key_pc]\<close> of the log message is 0 or a value of
  \<^verbatim>\<open>range(12)\<close>, so it cannot raise.\<close>

definition estimate_key :: "NoteEvent list \<Rightarrow> bool \<Rightarrow> KeyEstimate" where
  "estimate_key note_events exclude_short_notes =
     (if note_events = [] then \<lparr> key_pc = 0, mode = ''major'', k_confidence = 0.0 \<rparr>
      else
        let pc_weights = key_histogram note_events exclude_short_notes
        in if sum_list pc_weights = 0
           then \<lparr> key_pc = 0, mode = ''major'', k_confidence = 0.0 \<rparr>
           else
             let pc_weights = map (\<lambda>w. w / sum_list pc_weights) pc_weights;
                 best = foldl (key_step pc_weights) (- 1, 0, ''major'') [0..<12];
                 confidence = max 0.0 (min 1.0 (fst best))
             in \<lparr> key_pc = fst (snd best), mode = snd (snd best), k_confidence = confidence \<rparr>)"

subsection \<open>Pitch smoother (PitchSmoother.smooth_pitch_activity)\<close>

text \<open>\<^verbatim>\<open>pc_events[note.pitch_class].append(note)\<close> on a \<^verbatim>\<open>defaultdict(list)\<close>:
  the keys stay in the order of their first occurrence.\<close>

fun group_append ::
  "(int \<times> NoteEvent list) list \<Rightarrow> int \<Rightarrow> NoteEvent \<Rightarrow> (int \<times> NoteEvent list) list" where
  "group_append [] pc note = [(pc, [note])]"
| "group_append ((k, events) # rest) pc note =
     (if k = pc then (k, events @ [note]) # rest else (k, events) # group_append rest pc note)"

definition group_by_pitch_class :: "NoteEvent list \<Rightarrow> (int \<times> NoteEvent list) list" where
  "group_by_pitch_class note_events =
     foldl (\<lambda>pc_events note. group_append pc_events (pitch_class note) note) [] note_events"

text \<open>\<^verbatim>\<open>scipy.signal.medfilt(volume, kernel_size)\<close> for an odd kernel size: the array is
  padded with zeros on both sides, and each output entry is the median (the middle entry
  of the sorted window) of the \<open>kernel_size\<close> entries centred on it.\<close>

definition medfilt :: "real list \<Rightarrow> nat \<Rightarrow> real list" where
  "medfilt volume kernel_size =
     (let pad = replicate (kernel_size div 2) 0;
          padded = pad @ volume @ pad
      in map (\<lambda>i. sort (take kernel_size (drop i padded)) ! (kernel_size div 2))
             [0..<length volume])"

text \<open>The body of the loop over the groups, for the smoother the engine constructs
  (\<^verbatim>\<open>PitchSmoother()\<close>, filter size \<^verbatim>\<open>MEDIAN_FILTER_SIZE\<close>).\<close>

definition smooth_group :: "NoteEvent list \<Rightarrow> NoteEvent list" where
  "smooth_group events =
     (if length events \<le> 1 then events
      else
        let events = sort_key n_onset events;
            confidences = map n_confidence events
        in if length confidences \<ge> MEDIAN_FILTER_SIZE
           then
             let smoothed_confidences = medfilt confidences MEDIAN_FILTER_SIZE
             in map (\<lambda>(i, event). \<lparr> n_onset = n_onset event, n_offset = n_offset event,
                                      pitch = pitch event,
                                      n_confidence = smoothed_confidences ! i \<rparr>)
                    (enumerate 0 events)
           else events)"

definition smooth_pitch_activity :: "NoteEvent list \<Rightarrow> NoteEvent list" where
  "smooth_pitch_activity note_events =
     (if note_events = [] then []
      else concat (map (\<lambda>(pc, events). smooth_group events) (group_by_pitch_class note_events)))"

subsection \<open>Python errors and list indexing\<close>

datatype py_error = KeyError | ValueError | TypeError | IndexError | OverflowError

text \<open>\<^verbatim>\<open>xs[i]\<close> on a Python list: a negative index counts from the end, an index
  outside \<open>[-len, len)\<close> raises \<^verbatim>\<open>IndexError\<close>.\<close>

definition list_index :: "'a list \<Rightarrow> int \<Rightarrow> py_error + 'a" where
  "list_index xs i =
     (if 0 \<le> i \<and> i < int (length xs) then Inr (xs ! nat i)
      else if - int (length xs) \<le> i \<and> i < 0 then Inr (xs ! nat (int (length xs) + i))
      else Inl IndexError)"

definition note_names :: "string list" where
  "note_names = [''C'', ''C#'', ''D'', ''D#'', ''E'', ''F'', ''F#'', ''G'', ''G#'', ''A'', ''A#'', ''B'']"

subsection \<open>Key membership (ChordInferenceEngine._is_in_key)\<close>

definition scale_pcs :: "KeyEstimate \<Rightarrow> int set" where
  "scale_pcs key_estimate =
     (let scale_intervals = (if mode key_estimate = ''major''
                             then [0, 2, 4, 5, 7, 9, 11]
                             else [0, 2, 3, 5, 7, 8, 10])
      in set (map (\<lambda>interval. (key_pc key_estimate + interval) mod 12) scale_intervals))"

definition is_in_key :: "int \<Rightarrow> KeyEstimate \<Rightarrow> bool" where
  "is_in_key pc key_estimate =
     (if k_confidence key_estimate < 0.5 then True else pc \<in> scale_pcs key_estimate)"

subsection \<open>Chord identifier (ChordInferenceEngine._identify_chord)\<close>

text \<open>The table \<^verbatim>\<open>chord_tests\<close>: required intervals, chord type, suffix, base score.\<close>

type_synonym chord_test = "int set \<times> string \<times> string \<times> real"

definition chord_tests :: "chord_test list" where
  "chord_tests =
     [({0, 4, 7}, ''major'', [], 10),
      ({0, 3, 7}, ''minor'', ''m'', 10),
      ({0, 4, 7, 10}, ''7'', ''7'', 12),
      ({0, 3, 7, 10}, ''m7'', ''m7'', 12),
      ({0, 4, 7, 11}, ''maj7'', ''maj7'', 12),
      ({0, 3, 7, 10, 2, 5}, ''m11'', ''m11'', 14),
      ({0, 4, 7, 2}, ''add9'', ''add9'', 11),
      ({0, 4, 7, 9}, ''6'', ''6'', 11),
      ({0, 3, 6}, ''dim'', ''dim'', 9),
      ({0, 4, 8}, ''aug'', ''aug'', 9),
      ({0, 2, 7}, ''sus2'', ''sus2'', 8),
      ({0, 5, 7}, ''sus4'', ''sus4'', 8),
      ({0, 4}, ''major'', [], 6),
      ({0, 3}, ''minor'', ''m'', 6),
      ({0, 7}, ''major'', [], 4)]"

text \<open>The weights \<^verbatim>\<open>pc_weights\<close> are a dict in insertion order (an association list
  with distinct keys) or \<^verbatim>\<open>None\<close>; \<^verbatim>\<open>if pc_weights:\<close> is false for \<^verbatim>\<open>None\<close>
  and for the empty dict.\<close>

definition intervals_set :: "int list \<Rightarrow> int \<Rightarrow> int set" where
  "intervals_set pcs rt = set (map (\<lambda>pc. (pc - rt) mod 12) pcs)"

definition root_strength_bonus :: "int list \<Rightarrow> (int \<times> real) list option \<Rightarrow> int \<Rightarrow> real" where
  "root_strength_bonus pcs pc_weights rt =
     (case pc_weights of
        None \<Rightarrow> 1.0
      | Some w \<Rightarrow>
          if w = [] then 1.0
          else
            let root_weight = (case map_of w rt of None \<Rightarrow> 0.0 | Some x \<Rightarrow> x);
                max_weight = Max (set (map snd w));
                bonus = (if root_weight > 0 then 1.0 + (root_weight / max_weight) * 0.8 else 1.0)
            in if rt = Min (set pcs) then bonus * 1.3 else bonus)"

text \<open>The score of one row of the table for one root: \<open>None\<close> when the required
  intervals are not all present.\<close>

definition chord_score ::
  "int list \<Rightarrow> KeyEstimate \<Rightarrow> (int \<times> real) list option \<Rightarrow> int \<Rightarrow> chord_test \<Rightarrow> real option" where
  "chord_score pcs key_estimate pc_weights rt test =
     (case test of (required_intervals, ctype, suffix, base_score) \<Rightarrow>
        if required_intervals \<subseteq> intervals_set pcs rt
        then
          let match_ratio = real (card required_intervals)
                            / real (card (intervals_set pcs rt));
              score = base_score * match_ratio;
              score = (if intervals_set pcs rt = required_intervals
                       then score * 1.5 else score);
              score = score * root_strength_bonus pcs pc_weights rt;
              score = (if is_in_key rt key_estimate then score * 1.2 else score);
              score = (if rt = key_pc key_estimate
                          \<and> ((mode key_estimate = ''major'' \<and> ctype = ''major'')
                             \<or> (mode key_estimate = ''minor'' \<and> ctype = ''minor''))
                       then score * 1.4 else score)
          in Some score
        else None)"

text \<open>The loop state is \<^verbatim>\<open>(best_match, best_score)\<close>, where \<^verbatim>\<open>best_match\<close> is
  \<^verbatim>\<open>None\<close> or \<^verbatim>\<open>(symbol, chord_type, root)\<close>.\<close>

type_synonym best_state = "(string \<times> string \<times> int) option \<times> real"

definition test_step ::
  "int list \<Rightarrow> KeyEstimate \<Rightarrow> (int \<times> real) list option \<Rightarrow> int \<Rightarrow> string
   \<Rightarrow> best_state \<Rightarrow> chord_test \<Rightarrow> best_state" where
  "test_step pcs key_estimate pc_weights rt root_name st test =
     (case chord_score pcs key_estimate pc_weights rt test of
        None \<Rightarrow> st
      | Some score \<Rightarrow>
          if score > snd st
          then (Some (root_name @ fst (snd (snd test)), fst (snd test), rt), score)
          else st)"

fun roots_loop ::
  "int list \<Rightarrow> KeyEstimate \<Rightarrow> (int \<times> real) list option \<Rightarrow> best_state \<Rightarrow> int list
   \<Rightarrow> py_error + best_state" where
  "roots_loop pcs key_estimate pc_weights st [] = Inr st"
| "roots_loop pcs key_estimate pc_weights st (rt # rest) =
     (case list_index note_names rt of
        Inl e \<Rightarrow> Inl e
      | Inr root_name \<Rightarrow>
          roots_loop pcs key_estimate pc_weights
            (foldl (test_step pcs key_estimate pc_weights rt root_name) st chord_tests)
            rest)"

definition identify_chord ::
  "int list \<Rightarrow> KeyEstimate \<Rightarrow> (int \<times> real) list option \<Rightarrow> py_error + (string \<times> string)" where
  "identify_chord pcs key_estimate pc_weights =
     (if pcs = [] then Inr (''N'', ''unknown'')
      else
        case roots_loop pcs key_estimate pc_weights (None, 0) pcs of
          Inl e \<Rightarrow> Inl e
        | Inr (best_match, best_score) \<Rightarrow>
            (case best_match of
               Some (symbol, ctype, rt) \<Rightarrow> Inr (symbol, ctype)
             | None \<Rightarrow>
                 (case list_index note_names (Min (set pcs)) of
                    Inl e \<Rightarrow> Inl e
                  | Inr root_name \<Rightarrow> Inr (root_name @ ''?'', ''unknown''))))"

subsection \<open>Window analysis (ChordInferenceEngine._analyze_window)\<close>

definition CONFIDENCE_WEIGHT_DURATION :: bool where "CONFIDENCE_WEIGHT_DURATION = True"

text \<open>\<^verbatim>\<open>pc_weights[pc] += weight\<close> on a \<^verbatim>\<open>defaultdict(float)\<close>: a new key is
  appended with \<open>0.0 + weight\<close>, an existing key keeps its position.\<close>

fun weights_add :: "(int \<times> real) list \<Rightarrow> int \<Rightarrow> real \<Rightarrow> (int \<times> real) list" where
  "weights_add [] pc weight = [(pc, 0 + weight)]"
| "weights_add ((k, v) # rest) pc weight =
     (if k = pc then (k, v + weight) # rest else (k, v) # weights_add rest pc weight)"

definition note_weight :: "NoteEvent \<Rightarrow> real \<Rightarrow> real \<Rightarrow> real" where
  "note_weight note start_time end_time =
     (let overlap_start = max (n_onset note) start_time;
          overlap_end = min (n_offset note) end_time;
          overlap_duration = max 0 (overlap_end - overlap_start)
      in if CONFIDENCE_WEIGHT_DURATION then n_confidence note * overlap_duration
         else n_confidence note)"

definition window_weights :: "NoteEvent list \<Rightarrow> real \<Rightarrow> real \<Rightarrow> (int \<times> real) list" where
  "window_weights notes start_time end_time =
     foldl (\<lambda>pc_weights note.
              weights_add pc_weights (pitch_class note) (note_weight note start_time end_time))
       [] notes"

text \<open>\<^verbatim>\<open>sorted(pc_weights.items(), key=lambda x: x[1], reverse=True)\<close> is a stable sort
  by descending weight: entries of equal weight keep their insertion order.\<close>

definition significant_pitch_classes :: "(int \<times> real) list \<Rightarrow> int list" where
  "significant_pitch_classes pc_weights =
     (let sorted_pcs = sort_key (\<lambda>x. - snd x) pc_weights;
          max_weight = snd (hd sorted_pcs);
          threshold = max_weight * 0.2
      in take 6 (map fst (filter (\<lambda>x. snd x \<ge> threshold) sorted_pcs)))"

definition analyze_window ::
  "NoteEvent list \<Rightarrow> real \<Rightarrow> real \<Rightarrow> KeyEstimate \<Rightarrow> py_error + ChordEvent option" where
  "analyze_window notes start_time end_time key_estimate =
     (if notes = [] then Inr None
      else
        let pc_weights = window_weights notes start_time end_time
        in if pc_weights = [] then Inr None
           else
             let significant_pcs = significant_pitch_classes pc_weights
             in if length significant_pcs < MIN_NOTES_PER_CHORD then Inr None
                else
                  case identify_chord significant_pcs key_estimate (Some pc_weights) of
                    Inl e \<Rightarrow> Inl e
                  | Inr (symbol, ctype) \<Rightarrow>
                      let total_weight = sum_list (map snd pc_weights);
                          avg_confidence = total_weight / real (length notes)
                      in Inr (Some \<lparr> c_onset = start_time, c_offset = end_time,
                                      chord_symbol = symbol,
                                      c_confidence = min avg_confidence 1.0,
                                      pitch_classes = set significant_pcs,
                                      root_pc = Min (set significant_pcs),
                                      chord_type = ctype \<rparr>))"

subsection \<open>Windowed chord detector (ChordInferenceEngine._detect_chords_in_windows)\<close>

definition window_notes :: "NoteEvent list \<Rightarrow> real \<Rightarrow> real \<Rightarrow> NoteEvent list" where
  "window_notes sorted_events current_time window_end =
     filter (\<lambda>event. n_onset event < window_end \<and> n_offset event > current_time) sorted_events"

definition window_chord ::
  "NoteEvent list \<Rightarrow> KeyEstimate \<Rightarrow> real \<Rightarrow> py_error + ChordEvent option" where
  "window_chord sorted_events key_estimate current_time =
     (let window_end = current_time + WINDOW_SIZE;
          notes = window_notes sorted_events current_time window_end
      in if length notes \<ge> MIN_NOTES_PER_CHORD
         then analyze_window notes current_time window_end key_estimate
         else Inr None)"

text \<open>The loop \<^verbatim>\<open>while current_time < end_time\<close>; the chords are returned in the
  order they are appended, an exception of a window ends the loop.\<close>

function windows_loop ::
  "NoteEvent list \<Rightarrow> KeyEstimate \<Rightarrow> real \<Rightarrow> real \<Rightarrow> py_error + ChordEvent list" where
  "windows_loop sorted_events key_estimate end_time current_time =
     (if current_time < end_time
      then
        case window_chord sorted_events key_estimate current_time of
          Inl e \<Rightarrow> Inl e
        | Inr chord \<Rightarrow>
            (case windows_loop sorted_events key_estimate end_time
                    (current_time + (WINDOW_SIZE - WINDOW_OVERLAP)) of
               Inl e \<Rightarrow> Inl e
             | Inr chords \<Rightarrow> Inr ((case chord of None \<Rightarrow> [] | Some c \<Rightarrow> [c]) @ chords))
      else Inr [])"
  by pat_completeness auto
termination
proof (relation "measure (\<lambda>(evs, k, e, c). nat \<lceil>(e - c) / 1.8\<rceil>)")
  show "wf (measure (\<lambda>(evs, k, e, c). nat \<lceil>(e - c) / 1.8\<rceil>))"
    by simp
next
  fix sorted_events :: "NoteEvent list" and key_estimate :: KeyEstimate
    and end_time current_time :: real
  assume lt: "current_time < end_time"
  have "(end_time - (current_time + (WINDOW_SIZE - WINDOW_OVERLAP))) / 1.8
        = (end_time - current_time) / 1.8 - 1"
    by (simp add: WINDOW_SIZE_def WINDOW_OVERLAP_def field_simps)
  then have "\<lceil>(end_time - (current_time + (WINDOW_SIZE - WINDOW_OVERLAP))) / 1.8\<rceil>
             = \<lceil>(end_time - current_time) / 1.8 - 1\<rceil>"
    by (rule arg_cong)
  also have "\<dots> = \<lceil>(end_time - current_time) / 1.8\<rceil> - 1"
    by (rule ceiling_diff_one)
  finally have step: "\<lceil>(end_time - (current_time + (WINDOW_SIZE - WINDOW_OVERLAP))) / 1.8\<rceil>
             = \<lceil>(end_time - current_time) / 1.8\<rceil> - 1" .
  have "0 < (end_time - current_time) / 1.8"
    using lt by simp
  then have "0 < \<lceil>(end_time - current_time) / 1.8\<rceil>"
    by (simp only: zero_less_ceiling)
  with step show "((sorted_events, key_estimate, end_time,
                    current_time + (WINDOW_SIZE - WINDOW_OVERLAP)),
                   (sorted_events, key_estimate, end_time, current_time))
        \<in> measure (\<lambda>(evs, k, e, c). nat \<lceil>(e - c) / 1.8\<rceil>)"
    by simp
qed

declare windows_loop.simps [simp del]

definition detect_chords_in_windows ::
  "NoteEvent list \<Rightarrow> KeyEstimate \<Rightarrow> py_error + ChordEvent list" where
  "detect_chords_in_windows events key_estimate =
     (if events = [] then Inr []
      else
        let sorted_events = sort_key n_onset events;
            start_time = n_onset (hd sorted_events);
            end_time = Max (set (map n_offset sorted_events))
        in windows_loop sorted_events key_estimate end_time start_time)"

subsection \<open>Duration filter (ChordInferenceEngine._filter_short_notes)\<close>

definition filter_short_notes :: "NoteEvent list \<Rightarrow> NoteEvent list" where
  "filter_short_notes events = filter (\<lambda>event. duration event \<ge> MIN_NOTE_DURATION) events"

subsection \<open>Key-aware note filter (ChordInferenceEngine._apply_key_filtering)\<close>

definition key_filter_keep :: "KeyEstimate \<Rightarrow> NoteEvent \<Rightarrow> bool" where
  "key_filter_keep key_estimate event =
     (if pitch_class event \<in> scale_pcs key_estimate then True
      else if n_confidence event \<ge> KEY_FILTER_CONFIDENCE_THRESHOLD then True
      else False)"

text \<open>When a note was dropped, the log message reads \<^verbatim>\<open>key_names[key_estimate.key_pc]\<close>,
  which raises for a key pitch class outside the list.\<close>

definition apply_key_filtering ::
  "NoteEvent list \<Rightarrow> KeyEstimate \<Rightarrow> py_error + NoteEvent list" where
  "apply_key_filtering events key_estimate =
     (if k_confidence key_estimate < 0.5 then Inr events
      else
        let filtered_events = filter (key_filter_keep key_estimate) events;
            dropped_count = length events - length filtered_events
        in if dropped_count > 0
           then (case list_index note_names (key_pc key_estimate) of
                   Inl e \<Rightarrow> Inl e
                 | Inr key_name \<Rightarrow> Inr filtered_events)
           else Inr filtered_events)"

subsection \<open>Harmony filter (ChordInferenceEngine._apply_harmony_filtering)\<close>

definition is_chord_root_in_key :: "ChordEvent \<Rightarrow> KeyEstimate \<Rightarrow> bool" where
  "is_chord_root_in_key chord key_estimate =
     (if k_confidence key_estimate < 0.6 then True
      else is_in_key (root_pc chord) key_estimate)"

definition chord_repeats :: "ChordEvent \<Rightarrow> ChordEvent list \<Rightarrow> bool" where
  "chord_repeats target_chord all_chords =
     (length (filter (\<lambda>c. chord_symbol c = chord_symbol target_chord) all_chords) \<ge> 2)"

text \<open>The decision of the loop body for one chord: \<open>True\<close> when it is appended to
  \<^verbatim>\<open>filtered\<close>.\<close>

definition harmony_keep :: "ChordEvent list \<Rightarrow> KeyEstimate \<Rightarrow> ChordEvent \<Rightarrow> bool" where
  "harmony_keep chords key_estimate chord =
     (if (CHR ''?'' \<in> set (chord_symbol chord) \<or> CHR ''!'' \<in> set (chord_symbol chord))
         \<and> c_confidence chord < 0.6 \<and> c_offset chord - c_onset chord < 1.0
      then False
      else
        let is_root_in_key = is_chord_root_in_key chord key_estimate
        in if chord_type chord \<in> FUNCTIONAL_CHORDS \<and> is_root_in_key then True
           else if \<not> is_root_in_key
           then (if c_confidence chord \<ge> 0.7 \<and> c_offset chord - c_onset chord \<ge> 1.0 then True
                 else if chord_type chord = ''m11'' \<and> c_confidence chord \<ge> 0.6 then True
                 else False)
           else if c_confidence chord \<ge> 0.3 \<or> c_offset chord - c_onset chord \<ge> 0.6
                   \<or> chord_repeats chord chords
           then True
           else False)"

definition apply_harmony_filtering :: "ChordEvent list \<Rightarrow> KeyEstimate \<Rightarrow> ChordEvent list" where
  "apply_harmony_filtering chords key_estimate = filter (harmony_keep chords key_estimate) chords"

subsection \<open>Chord merger (ChordInferenceEngine._merge_similar_chords)\<close>

text \<open>The test \<^verbatim>\<open>should_merge\<close> of the loop body, for the accumulator \<open>current\<close> and
  the next chord.\<close>

definition should_merge :: "ChordEvent \<Rightarrow> ChordEvent \<Rightarrow> bool" where
  "should_merge current next_chord =
     (let time_gap = c_onset next_chord - c_offset current;
          same_chord = (chord_symbol current = chord_symbol next_chord);
          similar_chord = (root_pc current = root_pc next_chord
                           \<and> chord_type current = chord_type next_chord);
          close_in_time = (time_gap \<le> MERGE_THRESHOLD);
          overlapping = (c_onset next_chord < c_offset current)
      in (same_chord \<and> (close_in_time \<or> overlapping)) \<or> (similar_chord \<and> overlapping))"

definition merge_pair :: "ChordEvent \<Rightarrow> ChordEvent \<Rightarrow> ChordEvent" where
  "merge_pair current next_chord =
     \<lparr> c_onset = c_onset current,
       c_offset = max (c_offset current) (c_offset next_chord),
       chord_symbol = chord_symbol current,
       c_confidence = (c_confidence current + c_confidence next_chord) / 2,
       pitch_classes = pitch_classes current \<union> pitch_classes next_chord,
       root_pc = root_pc current,
       chord_type = chord_type current \<rparr>"

text \<open>The \<^verbatim>\<open>for next_chord in chords[1:]\<close> loop with its accumulator \<open>current\<close>; the
  chords flushed to \<^verbatim>\<open>merged\<close> are returned in the order they are appended, the final
  \<^verbatim>\<open>merged.append(current)\<close> is the base case.\<close>

fun merge_loop :: "ChordEvent \<Rightarrow> ChordEvent list \<Rightarrow> ChordEvent list" where
  "merge_loop current [] = [current]"
| "merge_loop current (next_chord # rest) =
     (if should_merge current next_chord
      then merge_loop (merge_pair current next_chord) rest
      else current # merge_loop next_chord rest)"

definition merge_similar_chords :: "ChordEvent list \<Rightarrow> ChordEvent list" where
  "merge_similar_chords chords =
     (if length chords \<le> 1 then chords else merge_loop (hd chords) (tl chords))"

subsection \<open>Stability filter (ChordInferenceEngine._ensure_stability)\<close>

definition ensure_stability :: "ChordEvent list \<Rightarrow> ChordEvent list" where
  "ensure_stability chords =
     (if chords = [] then []
      else filter (\<lambda>chord. c_offset chord - c_onset chord \<ge> MIN_CHORD_DURATION) chords)"

subsection \<open>Chord window smoother (ChordWindowSmoother.smooth_chord_progression)\<close>

definition timeline_resolution :: real where "timeline_resolution = 0.5"

text \<open>The sampling loop \<^verbatim>\<open>while current_time <= end_time\<close> in exact arithmetic: the
  grid points from \<open>current_time\<close> on, in steps of the resolution. The program adds
  doubles; \<open>timeline_points_fl\<close> below is the loop with the rounded addition, and the two
  grids are equal whenever every sum \<open>t + 0.5\<close> along the grid is a double
  (\<open>timeline_points_fl_exact\<close>).\<close>

function timeline_points :: "real \<Rightarrow> real \<Rightarrow> real list" where
  "timeline_points current_time end_time =
     (if current_time \<le> end_time
      then current_time # timeline_points (current_time + timeline_resolution) end_time
      else [])"
  by pat_completeness auto
termination
proof (relation "measure (\<lambda>(c, e). nat (\<lfloor>(e - c) * 2\<rfloor> + 1))")
  show "wf (measure (\<lambda>(c, e). nat (\<lfloor>(e - c) * 2\<rfloor> + 1)))"
    by simp
next
  fix current_time end_time :: real
  assume le: "current_time \<le> end_time"
  have "(end_time - (current_time + timeline_resolution)) * 2 = (end_time - current_time) * 2 - 1"
    by (simp add: timeline_resolution_def algebra_simps)
  then have "\<lfloor>(end_time - (current_time + timeline_resolution)) * 2\<rfloor>
             = \<lfloor>(end_time - current_time) * 2 - 1\<rfloor>"
    by (rule arg_cong)
  also have "\<dots> = \<lfloor>(end_time - current_time) * 2\<rfloor> - 1"
    by (rule floor_diff_one)
  finally have "\<lfloor>(end_time - (current_time + timeline_resolution)) * 2\<rfloor>
             = \<lfloor>(end_time - current_time) * 2\<rfloor> - 1" .
  moreover have "0 \<le> \<lfloor>(end_time - current_time) * 2\<rfloor>"
    using le by simp
  ultimately show "((current_time + timeline_resolution, end_time), (current_time, end_time))
        \<in> measure (\<lambda>(c, e). nat (\<lfloor>(e - c) * 2\<rfloor> + 1))"
    by simp
qed

declare timeline_points.simps [simp del]

text \<open>The label of a grid point: the symbol of the first chord whose \<open>[onset, offset)\<close>
  contains it; \<^verbatim>\<open>active_chord or "N"\<close> gives \<open>N\<close> when there is none (or when the
  symbol is the empty string).\<close>

definition active_symbol :: "ChordEvent list \<Rightarrow> real \<Rightarrow> string" where
  "active_symbol chord_events time_point =
     (case find (\<lambda>chord. c_onset chord \<le> time_point \<and> time_point < c_offset chord) chord_events of
        None \<Rightarrow> ''N''
      | Some chord \<Rightarrow> (if chord_symbol chord = [] then ''N'' else chord_symbol chord))"

text \<open>\<^verbatim>\<open>Counter(...)\<close> keeps its keys in the order of their first occurrence;
  \<^verbatim>\<open>most_common(1)\<close> returns the first entry with the greatest count.\<close>

fun counter_add :: "(string \<times> nat) list \<Rightarrow> string \<Rightarrow> (string \<times> nat) list" where
  "counter_add [] s = [(s, 1)]"
| "counter_add ((k, n) # rest) s =
     (if k = s then (k, n + 1) # rest else (k, n) # counter_add rest s)"

definition Counter :: "string list \<Rightarrow> (string \<times> nat) list" where
  "Counter xs = foldl counter_add [] xs"

fun first_max_count :: "(string \<times> nat) \<Rightarrow> (string \<times> nat) list \<Rightarrow> (string \<times> nat)" where
  "first_max_count best [] = best"
| "first_max_count best (x # xs) = first_max_count (if snd x > snd best then x else best) xs"

definition most_common_symbol :: "string list \<Rightarrow> string" where
  "most_common_symbol window_symbols =
     (case Counter (filter (\<lambda>s. s \<noteq> ''N'') window_symbols) of
        [] \<Rightarrow> ''N''
      | x # xs \<Rightarrow> fst (first_max_count x xs))"

definition filter_window :: nat where
  "filter_window = max 3 (nat \<lfloor>1.0 / timeline_resolution\<rfloor>)"

text \<open>The smoothed label at index \<open>i\<close>; \<^verbatim>\<open>max(0, i - filter_window // 2)\<close> is the
  truncated subtraction of \<^typ>\<open>nat\<close>.\<close>

definition smoothed_symbol :: "string list \<Rightarrow> nat \<Rightarrow> string" where
  "smoothed_symbol chord_symbols i =
     (let window_start = i - filter_window div 2;
          window_end = min (length chord_symbols) (window_start + filter_window);
          window_symbols = take (window_end - window_start) (drop window_start chord_symbols)
      in most_common_symbol window_symbols)"

text \<open>The chord appended for a run with label \<open>current_symbol\<close>: nothing for \<open>N\<close> or when
  no input chord has the symbol, otherwise the metadata of the first input chord with it.\<close>

definition run_chord :: "ChordEvent list \<Rightarrow> string \<Rightarrow> real \<Rightarrow> real \<Rightarrow> ChordEvent list" where
  "run_chord chord_events current_symbol start_t end_t =
     (if current_symbol \<noteq> ''N''
      then (case find (\<lambda>c. chord_symbol c = current_symbol) chord_events of
              None \<Rightarrow> []
            | Some original_chord \<Rightarrow>
                [\<lparr> c_onset = start_t, c_offset = end_t, chord_symbol = current_symbol,
                   c_confidence = c_confidence original_chord,
                   pitch_classes = pitch_classes original_chord,
                   root_pc = root_pc original_chord,
                   chord_type = chord_type original_chord \<rparr>])
      else [])"

text \<open>The loop \<^verbatim>\<open>for i in range(1, len(smoothed_symbols))\<close> over the remaining
  (label, grid point) pairs; \<open>prev_point\<close> is \<^verbatim>\<open>timeline_points[i-1]\<close>, the test
  \<^verbatim>\<open>i == len(smoothed_symbols) - 1\<close> is "no pair remains after this one", and the
  base case is the block "Handle last chord".\<close>

fun segment_loop ::
  "ChordEvent list \<Rightarrow> real \<Rightarrow> string \<Rightarrow> real \<Rightarrow> real \<Rightarrow> (string \<times> real) list \<Rightarrow> ChordEvent list" where
  "segment_loop chord_events end_time current_symbol current_start_time prev_point [] =
     run_chord chord_events current_symbol current_start_time end_time"
| "segment_loop chord_events end_time current_symbol current_start_time prev_point ((s, t) # rest) =
     (if s \<noteq> current_symbol \<or> rest = []
      then run_chord chord_events current_symbol current_start_time (prev_point + timeline_resolution)
           @ segment_loop chord_events end_time s t t rest
      else segment_loop chord_events end_time current_symbol current_start_time t rest)"

definition smooth_chord_progression :: "ChordEvent list \<Rightarrow> ChordEvent list" where
  "smooth_chord_progression chord_events =
     (if length chord_events \<le> 2 then chord_events
      else
        let start_time = Min (set (map c_onset chord_events));
            end_time = Max (set (map c_offset chord_events));
            duration = end_time - start_time
        in if duration \<le> 0 then chord_events
           else
             let points = timeline_points start_time end_time;
                 chord_symbols = map (active_symbol chord_events) points
             in if length chord_symbols \<ge> filter_window
                then
                  let smoothed_symbols =
                        map (smoothed_symbol chord_symbols) [0..<length chord_symbols]
                  in (case zip smoothed_symbols points of
                        [] \<Rightarrow> []
                      | (s0, t0) # rest \<Rightarrow> segment_loop chord_events end_time s0 t0 t0 rest)
                else chord_events)"

subsection \<open>The sampling grid in double precision\<close>

text \<open>
  The accumulation \<^verbatim>\<open>current_time += timeline_resolution\<close> is an addition of IEEE 754
  doubles: the exact sum is rounded to the nearest double, a tie going to the even
  significand. The doubles of magnitude in \<open>[2^e, 2^(e+1))\<close>, \<open>-1022 \<le> e \<le> 1023\<close>, are
  the multiples of \<open>2^(e-52)\<close>; below \<open>2^(-1022)\<close> they are the multiples of \<open>2^(-1074)\<close>.
  \<open>binade a\<close> is that exponent \<open>e\<close> for a magnitude \<open>a < 2^1024\<close> (a sum of a finite time
  and 0.5 never reaches the overflow threshold).
\<close>

function binade_from :: "int \<Rightarrow> real \<Rightarrow> int" where
  "binade_from e a = (if e < 1023 \<and> 2 powi (e + 1) \<le> a then binade_from (e + 1) a else e)"
  by pat_completeness auto
termination
  by (relation "measure (\<lambda>(e, a). nat (1023 - e))") auto

declare binade_from.simps [simp del]

definition binade :: "real \<Rightarrow> int" where
  "binade a = binade_from (- 1022) a"

definition ulp :: "real \<Rightarrow> real" where
  "ulp x = 2 powi (binade \<bar>x\<bar> - 52)"

definition round_half_even :: "real \<Rightarrow> int" where
  "round_half_even m =
     (let f = \<lfloor>m\<rfloor>; r = m - of_int f
      in if r < 1 / 2 then f
         else if 1 / 2 < r then f + 1
         else if even f then f else f + 1)"

definition round_double :: "real \<Rightarrow> real" where
  "round_double x = of_int (round_half_even (x / ulp x)) * ulp x"

definition fl_add :: "real \<Rightarrow> real \<Rightarrow> real" where
  "fl_add x y = round_double (x + y)"

text \<open>The sampling loop with the double addition. When the sum rounds back to
  \<open>current_time\<close> the loop of the program never ends: the value is \<open>None\<close>.\<close>

partial_function (option) timeline_points_fl :: "real \<Rightarrow> real \<Rightarrow> real list option" where
  "timeline_points_fl current_time end_time =
     (if current_time \<le> end_time
      then Option.bind (timeline_points_fl (fl_add current_time timeline_resolution) end_time)
             (\<lambda>rest. Some (current_time # rest))
      else Some [])"

text \<open>The segmentation loop with the double addition
  \<^verbatim>\<open>timeline_points[i-1] + timeline_resolution\<close>.\<close>

fun segment_loop_fl ::
  "ChordEvent list \<Rightarrow> real \<Rightarrow> string \<Rightarrow> real \<Rightarrow> real \<Rightarrow> (string \<times> real) list \<Rightarrow> ChordEvent list" where
  "segment_loop_fl chord_events end_time current_symbol current_start_time prev_point [] =
     run_chord chord_events current_symbol current_start_time end_time"
| "segment_loop_fl chord_events end_time current_symbol current_start_time prev_point ((s, t) # rest) =
     (if s \<noteq> current_symbol \<or> rest = []
      then run_chord chord_events current_symbol current_start_time
             (fl_add prev_point timeline_resolution)
           @ segment_loop_fl chord_events end_time s t t rest
      else segment_loop_fl chord_events end_time current_symbol current_start_time t rest)"

text \<open>\<^verbatim>\<open>smooth_chord_progression\<close> on doubles. The test \<^verbatim>\<open>duration <= 0\<close> reads only
  the sign of the difference, which rounding keeps; the comparisons are exact.\<close>

definition smooth_chord_progression_fl :: "ChordEvent list \<Rightarrow> ChordEvent list option" where
  "smooth_chord_progression_fl chord_events =
     (if length chord_events \<le> 2 then Some chord_events
      else
        let start_time = Min (set (map c_onset chord_events));
            end_time = Max (set (map c_offset chord_events));
            duration = end_time - start_time
        in if duration \<le> 0 then Some chord_events
           else
             case timeline_points_fl start_time end_time of
               None \<Rightarrow> None
             | Some points \<Rightarrow>
                 let chord_symbols = map (active_symbol chord_events) points
                 in if length chord_symbols \<ge> filter_window
                    then
                      let smoothed_symbols =
                            map (smoothed_symbol chord_symbols) [0..<length chord_symbols]
                      in (case zip smoothed_symbols points of
                            [] \<Rightarrow> Some []
                          | (s0, t0) # rest \<Rightarrow>
                              Some (segment_loop_fl chord_events end_time s0 t0 t0 rest))
                    else Some chord_events)"

subsection \<open>Engine (ChordInferenceEngine.infer_chords)\<close>

definition infer_chords :: "NoteEvent list \<Rightarrow> py_error + (ChordEvent list \<times> KeyEstimate)" where
  "infer_chords note_events =
     (let smoothed_events = smooth_pitch_activity note_events;
          filtered_events = filter_short_notes smoothed_events;
          key_estimate = estimate_key filtered_events True
      in case apply_key_filtering filtered_events key_estimate of
           Inl e \<Rightarrow> Inl e
         | Inr key_filtered_events \<Rightarrow>
             (case detect_chords_in_windows key_filtered_events key_estimate of
                Inl e \<Rightarrow> Inl e
              | Inr raw_chords \<Rightarrow>
                  let harmony_filtered_chords = apply_harmony_filtering raw_chords key_estimate;
                      smoothed_chords = smooth_chord_progression harmony_filtered_chords;
                      merged_chords = merge_similar_chords smoothed_chords;
                      stable_chords = ensure_stability merged_chords
                  in Inr (stable_chords, key_estimate)))"

subsection \<open>Main interface (process_note_events)\<close>

text \<open>
  The values a field of an input record can hold, as far as the model goes: \<^verbatim>\<open>None\<close>,
  a bool, an int, a finite float, a list. Strings, NaN, the infinities and objects with
  their own conversion methods are not modelled. A record is a dict from field names to
  values.
\<close>

datatype py_value = PyNone | PyBool bool | PyInt int | PyFloat real | PyList "py_value list"

type_synonym py_dict = "string \<rightharpoonup> py_value"

text \<open>\<^verbatim>\<open>note_dict[key]\<close> raises \<^verbatim>\<open>KeyError\<close> for a missing key.\<close>

definition dict_get :: "py_dict \<Rightarrow> string \<Rightarrow> py_error + py_value" where
  "dict_get d k = (case d k of None \<Rightarrow> Inl KeyError | Some v \<Rightarrow> Inr v)"

text \<open>\<^verbatim>\<open>float(v)\<close>: \<^verbatim>\<open>TypeError\<close> for \<^verbatim>\<open>None\<close> and for a list,
  \<^verbatim>\<open>OverflowError\<close> for an int that rounds beyond the largest double (from
  \<open>2^1024 - 2^970\<close> on); the rounding of the other ints is idealised away.\<close>

fun py_float :: "py_value \<Rightarrow> py_error + real" where
  "py_float PyNone = Inl TypeError"
| "py_float (PyBool b) = Inr (if b then 1 else 0)"
| "py_float (PyInt i) =
     (if \<bar>i\<bar> \<ge> 2 ^ 1024 - 2 ^ 970 then Inl OverflowError else Inr (real_of_int i))"
| "py_float (PyFloat x) = Inr x"
| "py_float (PyList vs) = Inl TypeError"

text \<open>\<^verbatim>\<open>int(v)\<close>: a float is truncated towards zero.\<close>

fun py_int :: "py_value \<Rightarrow> py_error + int" where
  "py_int PyNone = Inl TypeError"
| "py_int (PyBool b) = Inr (if b then 1 else 0)"
| "py_int (PyInt i) = Inr i"
| "py_int (PyFloat x) = Inr (if x \<ge> 0 then \<lfloor>x\<rfloor> else \<lceil>x\<rceil>)"
| "py_int (PyList vs) = Inl TypeError"

text \<open>The constructor call in the \<^verbatim>\<open>try\<close> block: the four fields are read and
  converted in the order onset, offset, pitch, confidence; the first exception wins.\<close>

definition make_note :: "py_dict \<Rightarrow> py_error + NoteEvent" where
  "make_note note_dict =
     (case dict_get note_dict ''onset'' of Inl e \<Rightarrow> Inl e | Inr v1 \<Rightarrow>
      case py_float v1 of Inl e \<Rightarrow> Inl e | Inr on \<Rightarrow>
      case dict_get note_dict ''offset'' of Inl e \<Rightarrow> Inl e | Inr v2 \<Rightarrow>
      case py_float v2 of Inl e \<Rightarrow> Inl e | Inr off \<Rightarrow>
      case dict_get note_dict ''pitch'' of Inl e \<Rightarrow> Inl e | Inr v3 \<Rightarrow>
      case py_int v3 of Inl e \<Rightarrow> Inl e | Inr p \<Rightarrow>
      case dict_get note_dict ''confidence'' of Inl e \<Rightarrow> Inl e | Inr v4 \<Rightarrow>
      case py_float v4 of Inl e \<Rightarrow> Inl e | Inr conf \<Rightarrow>
      Inr \<lparr> n_onset = on, n_offset = off, pitch = p, n_confidence = conf \<rparr>)"

text \<open>\<^verbatim>\<open>except (KeyError, ValueError, TypeError)\<close>: these are logged and the record is
  skipped; any other exception leaves the function.\<close>

definition caught :: "py_error \<Rightarrow> bool" where
  "caught e = (e = KeyError \<or> e = ValueError \<or> e = TypeError)"

fun convert_notes :: "py_dict list \<Rightarrow> py_error + NoteEvent list" where
  "convert_notes [] = Inr []"
| "convert_notes (note_dict # rest) =
     (case make_note note_dict of
        Inr note \<Rightarrow> (case convert_notes rest of Inl e \<Rightarrow> Inl e | Inr notes \<Rightarrow> Inr (note # notes))
      | Inl e \<Rightarrow> if caught e then convert_notes rest else Inl e)"

text \<open>The output: one dict per chord and the key dict. The list made of the set
  \<^verbatim>\<open>chord.pitch_classes\<close> is kept as a set, its order is that of Python's set.\<close>

record chord_dict =
  d_onset :: real
  d_offset :: real
  d_chord :: string
  d_confidence :: real
  d_pitch_classes :: "int set"

record key_info =
  i_key :: string
  i_mode :: string
  i_confidence :: real

definition to_chord_dict :: "ChordEvent \<Rightarrow> chord_dict" where
  "to_chord_dict chord =
     \<lparr> d_onset = c_onset chord, d_offset = c_offset chord, d_chord = chord_symbol chord,
       d_confidence = c_confidence chord, d_pitch_classes = pitch_classes chord \<rparr>"

definition process_note_events :: "py_dict list \<Rightarrow> py_error + (chord_dict list \<times> key_info)" where
  "process_note_events raw_notes =
     (case convert_notes raw_notes of
        Inl e \<Rightarrow> Inl e
      | Inr note_events \<Rightarrow>
          if note_events = []
          then Inr ([], \<lparr> i_key = ''C'', i_mode = ''major'', i_confidence = 0.0 \<rparr>)
          else
            case infer_chords note_events of
              Inl e \<Rightarrow> Inl e
            | Inr (chord_events, key_estimate) \<Rightarrow>
                (case list_index note_names (key_pc key_estimate) of
                   Inl e \<Rightarrow> Inl e
                 | Inr key_name \<Rightarrow>
                     Inr (map to_chord_dict chord_events,
                          \<lparr> i_key = key_name, i_mode = mode key_estimate,
                            i_confidence = k_confidence key_estimate \<rparr>)))"

subsection \<open>Predicates used in the statements\<close>

text \<open>A chord list is already merged when no adjacent pair meets the merge test.\<close>

fun already_merged :: "ChordEvent list \<Rightarrow> bool" where
  "already_merged [] = True"
| "already_merged [c] = True"
| "already_merged (c # d # rest) = (\<not> should_merge c d \<and> already_merged (d # rest))"

definition already_stable :: "ChordEvent list \<Rightarrow> bool" where
  "already_stable chords = list_all (\<lambda>c. c_offset c - c_onset c \<ge> MIN_CHORD_DURATION) chords"


subsection \<open>Candidates of the chord identifier\<close>

text \<open>The (root, table row) pairs in the order the two nested loops visit them: the
  roots in the order of the given list, for each root the rows in table order.\<close>

definition candidates :: "int list \<Rightarrow> (int \<times> chord_test) list" where
  "candidates pcs = concat (map (\<lambda>rt. map (\<lambda>test. (rt, test)) chord_tests) pcs)"

text \<open>The score of a candidate, \<open>None\<close> when its row does not match.\<close>

definition candidate_score ::
  "int list \<Rightarrow> KeyEstimate \<Rightarrow> (int \<times> real) list option \<Rightarrow> (int \<times> chord_test) \<Rightarrow> real option" where
  "candidate_score pcs key_estimate pc_weights c =
     chord_score pcs key_estimate pc_weights (fst c) (snd c)"

text \<open>The symbol (root name and suffix) and the chord type of a candidate.\<close>

definition candidate_result :: "(int \<times> chord_test) \<Rightarrow> string \<times> string" where
  "candidate_result c =
     (note_names ! nat (fst c) @ fst (snd (snd (snd c))), fst (snd (snd c)))"

text \<open>Index \<open>i\<close> is the first best of a candidate list: its score is defined, no
  score is greater, and every earlier score is strictly smaller.\<close>

definition first_best :: "('a \<Rightarrow> real option) \<Rightarrow> 'a list \<Rightarrow> nat \<Rightarrow> bool" where
  "first_best sc cs i =
     (i < length cs \<and>
      (\<exists>s. sc (cs ! i) = Some s
           \<and> (\<forall>j < length cs. \<forall>s'. sc (cs ! j) = Some s' \<longrightarrow> s' \<le> s)
           \<and> (\<forall>j < i. \<forall>s'. sc (cs ! j) = Some s' \<longrightarrow> s' < s)))"

text \<open>A selection step that replaces the best so far on strict improvement only.\<close>

definition best_step ::
  "('a \<Rightarrow> real option) \<Rightarrow> ('a \<Rightarrow> 'b) \<Rightarrow> 'b option \<times> real \<Rightarrow> 'a \<Rightarrow> 'b option \<times> real" where
  "best_step sc pay st c =
     (case sc c of None \<Rightarrow> st
      | Some s \<Rightarrow> if s > snd st then (Some (pay c), s) else st)"

definition candidate_payload :: "(int \<times> chord_test) \<Rightarrow> string \<times> string \<times> int" where
  "candidate_payload c =
     (note_names ! nat (fst c) @ fst (snd (snd (snd c))), fst (snd (snd c)), fst c)"

subsection \<open>Candidates of the key detector\<close>

text \<open>The 24 candidates in the order the loop tests them: roots 0 to 11, at each root
  major before minor; the correlation of a candidate with a histogram; the normalised
  histogram of a note list.\<close>

definition key_candidates :: "(nat \<times> string) list" where
  "key_candidates = concat (map (\<lambda>r. [(r, ''major''), (r, ''minor'')]) [0..<12])"

definition key_correlation :: "real list \<Rightarrow> (nat \<times> string) \<Rightarrow> real" where
  "key_correlation pc_weights c =
     correlate_with_profile pc_weights (fst c)
       (if snd c = ''major'' then major_profile else minor_profile)"

definition normalized_histogram :: "NoteEvent list \<Rightarrow> bool \<Rightarrow> real list" where
  "normalized_histogram note_events exclude_short_notes =
     (let pc_weights = key_histogram note_events exclude_short_notes
      in map (\<lambda>w. w / sum_list pc_weights) pc_weights)"

text \<open>A selection step on \<^verbatim>\<open>(best value, payload)\<close> that replaces the best so far
  on strict improvement only.\<close>

definition max_step :: "('a \<Rightarrow> real) \<Rightarrow> ('a \<Rightarrow> 'b) \<Rightarrow> real \<times> 'b \<Rightarrow> 'a \<Rightarrow> real \<times> 'b" where
  "max_step f pay st c = (if f c > fst st then (f c, pay c) else st)"

definition key_payload :: "(nat \<times> string) \<Rightarrow> int \<times> string" where
  "key_payload c = (int (fst c), snd c)"

subsection \<open>Malformed input records\<close>

definition note_fields :: "string list" where
  "note_fields = [''onset'', ''offset'', ''pitch'', ''confidence'']"

text \<open>A value that is not a number (of the values of the model: \<^verbatim>\<open>None\<close> or a list).\<close>

fun wrong_typed :: "py_value \<Rightarrow> bool" where
  "wrong_typed PyNone = True"
| "wrong_typed (PyList vs) = True"
| "wrong_typed v = False"

text \<open>A record is malformed when one of the four fields is missing or wrong-typed.\<close>

definition malformed :: "py_dict \<Rightarrow> bool" where
  "malformed note_dict =
     list_ex (\<lambda>f. case note_dict f of None \<Rightarrow> True | Some v \<Rightarrow> wrong_typed v) note_fields"

text \<open>No int of the record is beyond the range of a float.\<close>

fun float_sized :: "py_value option \<Rightarrow> bool" where
  "float_sized (Some (PyInt i)) = (\<bar>i\<bar> < 2 ^ 1024 - 2 ^ 970)"
| "float_sized v = True"

definition in_float_range :: "py_dict \<Rightarrow> bool" where
  "in_float_range note_dict = list_all (\<lambda>f. float_sized (note_dict f)) note_fields"

subsection \<open>Comparing correlations without square roots\<close>

text \<open>For a candidate: the covariance of the histogram with the rotated profile, and the
  variance of the rotated profile.\<close>

definition candidate_stats :: "real list \<Rightarrow> (nat \<times> string) \<Rightarrow> real \<times> real" where
  "candidate_stats w c =
     (let y = np_roll (if snd c = ''major'' then major_profile else minor_profile) (fst c)
      in (np_cov w y, np_cov y y))"

text \<open>With \<open>vx\<close> the variance of the histogram: the correlation of the first candidate is
  strictly below that of the second, decided on squares.\<close>

definition corr_less :: "real \<Rightarrow> real \<times> real \<Rightarrow> real \<times> real \<Rightarrow> bool" where
  "corr_less vx p1 p2 =
     (0 < vx \<and> 0 < snd p1 \<and> 0 < snd p2 \<and> 0 < fst p2 \<and> (fst p2)\<^sup>2 \<le> vx * snd p2
      \<and> (fst p1 \<le> 0 \<or> (fst p1)\<^sup>2 * snd p2 < (fst p2)\<^sup>2 * snd p1))"

text \<open>Two key estimates that the stages after the key detector cannot tell apart: they
  read the key, the mode, and the confidence only through the tests \<open>< 0.5\<close> and
  \<open>< 0.6\<close>.\<close>

definition key_equiv :: "KeyEstimate \<Rightarrow> KeyEstimate \<Rightarrow> bool" where
  "key_equiv k k' =
     (key_pc k = key_pc k' \<and> mode k = mode k'
      \<and> (k_confidence k < 0.5) = (k_confidence k' < 0.5)
      \<and> (k_confidence k < 0.6) = (k_confidence k' < 0.6))"

subsection \<open>Statements about the pitch smoother\<close>

text \<open>The median of three values: the middle entry of the sorted triple.\<close>

definition median3 :: "real \<Rightarrow> real \<Rightarrow> real \<Rightarrow> real" where
  "median3 a b c = sort [a, b, c] ! 1"

text \<open>What the smoother must leave alone: onset, offset and pitch of a note.\<close>

definition note_timing :: "NoteEvent \<Rightarrow> real \<times> real \<times> int" where
  "note_timing n = (n_onset n, n_offset n, pitch n)"

text \<open>A group of notes with each confidence replaced by the median of itself and its two
  neighbours, a neighbour that does not exist counting as 0.\<close>

definition smoothed_group :: "NoteEvent list \<Rightarrow> NoteEvent list" where
  "smoothed_group events =
     (let cs = map n_confidence events
      in map (\<lambda>i. (events ! i)\<lparr> n_confidence :=
                      median3 (if i = 0 then 0 else cs ! (i - 1)) (cs ! i)
                              (if i + 1 < length cs then cs ! (i + 1) else 0) \<rparr>)
             [0..<length events])"

text \<open>The median filter of the specification, which asks for an edge-replicated window:
  the sequence is padded with copies of its first and of its last entry.\<close>

definition medfilt_edge_replicated :: "real list \<Rightarrow> nat \<Rightarrow> real list" where
  "medfilt_edge_replicated volume kernel_size =
     (let padded = replicate (kernel_size div 2) (hd volume) @ volume
                   @ replicate (kernel_size div 2) (last volume)
      in map (\<lambda>i. sort (take kernel_size (drop i padded)) ! (kernel_size div 2))
             [0..<length volume])"

subsection \<open>Statements about the pipeline\<close>

text \<open>The stages of \<^verbatim>\<open>infer_chords\<close> after the key estimate: key-aware filter, windowed
  detection, harmony filter, window smoother, merger, stability filter.\<close>

definition post_key :: "NoteEvent list \<Rightarrow> KeyEstimate \<Rightarrow> py_error + ChordEvent list" where
  "post_key evs k =
     (case apply_key_filtering evs k of
        Inl e \<Rightarrow> Inl e
      | Inr key_filtered_events \<Rightarrow>
          (case detect_chords_in_windows key_filtered_events k of
             Inl e \<Rightarrow> Inl e
           | Inr raw_chords \<Rightarrow>
               Inr (ensure_stability (merge_similar_chords (smooth_chord_progression
                      (apply_harmony_filtering raw_chords k))))))"

text \<open>The invariants of a chord that do not depend on its timing.\<close>

definition chord_ok :: "ChordEvent \<Rightarrow> bool" where
  "chord_ok c = (0 \<le> c_confidence c \<and> c_confidence c \<le> 1 \<and> root_pc c \<in> pitch_classes c)"

text \<open>A note of the data model: onset before offset, a MIDI pitch, a confidence in
  \<open>[0, 1]\<close>.\<close>

definition well_typed_note :: "NoteEvent \<Rightarrow> bool" where
  "well_typed_note n =
     (n_onset n < n_offset n \<and> 0 \<le> pitch n \<and> pitch n \<le> 127
      \<and> 0 \<le> n_confidence n \<and> n_confidence n \<le> 1)"

text \<open>The metadata the window smoother copies from an input chord.\<close>

definition same_meta :: "ChordEvent \<Rightarrow> ChordEvent \<Rightarrow> bool" where
  "same_meta c original = (c_confidence c = c_confidence original
      \<and> pitch_classes c = pitch_classes original \<and> root_pc c = root_pc original)"

subsection \<open>Example inputs\<close>

definition ex_C :: ChordEvent where
  "ex_C = \<lparr> c_onset = 0, c_offset = 2, chord_symbol = ''C'', c_confidence = 0.9,
            pitch_classes = {0, 4, 7}, root_pc = 0, chord_type = ''major'' \<rparr>"

definition ex_Dm :: ChordEvent where
  "ex_Dm = \<lparr> c_onset = 2.5, c_offset = 4.5, chord_symbol = ''Dm'', c_confidence = 0.8,
            pitch_classes = {2, 5, 9}, root_pc = 2, chord_type = ''minor'' \<rparr>"

definition ex_F :: ChordEvent where
  "ex_F = \<lparr> c_onset = 1.8, c_offset = 3.8, chord_symbol = ''F'', c_confidence = 0.8,
            pitch_classes = {0, 5, 9}, root_pc = 0, chord_type = ''major'' \<rparr>"

definition ex_G :: ChordEvent where
  "ex_G = \<lparr> c_onset = 3.6, c_offset = 5.6, chord_symbol = ''G'', c_confidence = 0.7,
            pitch_classes = {2, 7, 11}, root_pc = 2, chord_type = ''major'' \<rparr>"







definition ex_key0 :: KeyEstimate where
  "ex_key0 = \<lparr> key_pc = 0, mode = ''major'', k_confidence = 0.0 \<rparr>"

definition ex_weights_C :: "(int \<times> real) list" where
  "ex_weights_C = [(0, 1.8), (7, 1.7), (4, 1.6)]"

definition ex_weights_aug :: "(int \<times> real) list" where
  "ex_weights_aug = [(8, 1.6), (4, 1.6), (0, 0.48)]"

text \<open>A C major triad on \<open>[0, 1.8]\<close> followed by a D minor triad on \<open>[1.8, 3.6]\<close>.\<close>

definition ex_notes :: "NoteEvent list" where
  "ex_notes =
     [\<lparr> n_onset = 0, n_offset = 1.8, pitch = 60, n_confidence = 0.9 \<rparr>,
      \<lparr> n_onset = 0, n_offset = 1.8, pitch = 64, n_confidence = 0.8 \<rparr>,
      \<lparr> n_onset = 0, n_offset = 1.8, pitch = 67, n_confidence = 0.85 \<rparr>,
      \<lparr> n_onset = 1.8, n_offset = 3.6, pitch = 62, n_confidence = 0.9 \<rparr>,
      \<lparr> n_onset = 1.8, n_offset = 3.6, pitch = 65, n_confidence = 0.8 \<rparr>,
      \<lparr> n_onset = 1.8, n_offset = 3.6, pitch = 69, n_confidence = 0.85 \<rparr>]"

text \<open>\<^verbatim>\<open>{'onset': 10**400, 'offset': 1.0, 'pitch': 60, 'confidence': 0.5}\<close> and the
  same record with \<^verbatim>\<open>'offset': None\<close>.\<close>

definition ex_overflow_record :: py_dict where
  "ex_overflow_record =
     [''onset'' \<mapsto> PyInt (10 ^ 400), ''offset'' \<mapsto> PyFloat 1.0,
      ''pitch'' \<mapsto> PyInt 60, ''confidence'' \<mapsto> PyFloat 0.5]"

definition ex_malformed_overflow_record :: py_dict where
  "ex_malformed_overflow_record =
     [''onset'' \<mapsto> PyInt (10 ^ 400), ''offset'' \<mapsto> PyNone,
      ''pitch'' \<mapsto> PyInt 60, ''confidence'' \<mapsto> PyFloat 0.5]"

definition ex_good_record :: py_dict where
  "ex_good_record =
     [''onset'' \<mapsto> PyFloat 0.0, ''offset'' \<mapsto> PyFloat 1.0,
      ''pitch'' \<mapsto> PyInt 60, ''confidence'' \<mapsto> PyFloat 0.8]"

text \<open>Three notes of pitch class C with confidences 0.9, 0.8, 0.7.\<close>

definition ex_same_pitch :: "NoteEvent list" where
  "ex_same_pitch =
     [\<lparr> n_onset = 0, n_offset = 1, pitch = 60, n_confidence = 0.9 \<rparr>,
      \<lparr> n_onset = 1, n_offset = 2, pitch = 60, n_confidence = 0.8 \<rparr>,
      \<lparr> n_onset = 2, n_offset = 3, pitch = 72, n_confidence = 0.7 \<rparr>]"

text \<open>The normalised histogram of \<open>ex_notes\<close>, the covariance and variance of each of the
  24 candidates with it, a key estimate with the same key and a confidence on the same
  side of both thresholds, and the two chords the pipeline returns for \<open>ex_notes\<close>.\<close>

definition ex_hist :: "real list" where
  "ex_hist = [3 / 17, 0, 3 / 17, 0, 8 / 51, 8 / 51, 0, 1 / 6, 0, 1 / 6, 0, 0]"

definition ex_stats :: "(real \<times> real) list" where
  "ex_stats =
 [(181 / 78804, 36469 / 36591324), (4705 / 9988044, 1920851 / 2615104932),
  (- (1609 / 1041964), 36469 / 36591324),
  (- (2301 / 3329348), 1920851 / 2615104932),
  (10205 / 9377676, 36469 / 36591324),
  (5259 / 3329348, 1920851 / 2615104932),
  (- (5767 / 9377676), 36469 / 36591324),
  (- (1015 / 587532), 1920851 / 2615104932),
  (- (1637 / 3125892), 36469 / 36591324),
  (9811 / 9988044, 1920851 / 2615104932),
  (17077 / 9377676, 36469 / 36591324),
  (775 / 3329348, 1920851 / 2615104932),
  (- (21319 / 9377676), 36469 / 36591324),
  (- (3959 / 9988044), 1920851 / 2615104932),
  (14827 / 9377676, 36469 / 36591324),
  (2309 / 3329348, 1920851 / 2615104932),
  (- (557 / 551628), 36469 / 36591324),
  (- (937 / 587532), 1920851 / 2615104932),
  (5701 / 9377676, 36469 / 36591324),
  (5741 / 3329348, 1920851 / 2615104932),
  (1387 / 3125892, 36469 / 36591324),
  (- (3461 / 3329348), 1920851 / 2615104932),
  (- (2509 / 1339668), 36469 / 36591324),
  (- (2339 / 9988044), 1920851 / 2615104932)]"

definition ex_key_rounded :: KeyEstimate where
  "ex_key_rounded = \<lparr> key_pc = 0, mode = ''major'', k_confidence = 0.8 \<rparr>"

definition ex_chord_C :: ChordEvent where
  "ex_chord_C = \<lparr> c_onset = 0, c_offset = 2, chord_symbol = ''C'', c_confidence = 0.85,
                  pitch_classes = {0, 4, 7}, root_pc = 0, chord_type = ''major'' \<rparr>"

definition ex_chord_Dm :: ChordEvent where
  "ex_chord_Dm = \<lparr> c_onset = 1.8, c_offset = 3.8, chord_symbol = ''Dm'', c_confidence = 1,
                   pitch_classes = {2, 5, 9}, root_pc = 2, chord_type = ''minor'' \<rparr>"

section \<open>Theorems\<close>

subsection \<open>Merger and stability filter\<close>

lemma merge_loop_already_merged:
  "already_merged (c # rest) \<Longrightarrow> merge_loop c rest = c # rest"
  by (induction rest arbitrary: c) auto

lemma merge_similar_chords_already_merged:
  "already_merged chords \<Longrightarrow> merge_similar_chords chords = chords"
  by (cases chords) (auto simp: merge_similar_chords_def merge_loop_already_merged)

lemma ensure_stability_already_stable:
  "already_stable chords \<Longrightarrow> ensure_stability chords = chords"
  by (auto simp: ensure_stability_def already_stable_def list_all_iff filter_id_conv)

text \<open>
  C9. Idempotence of merge and stability: on a chord list in which no adjacent pair meets
  the merge criteria and every chord lasts at least 0.3 seconds, the merger followed by
  the stability filter returns the list unchanged.
\<close>

theorem C9_merge_stability_idempotent:
  assumes "already_merged chords" and "already_stable chords"
  shows "ensure_stability (merge_similar_chords chords) = chords"
  using assms
  by (simp add: merge_similar_chords_already_merged ensure_stability_already_stable)

theorem C9_witness:
  "already_merged [ex_C, ex_Dm] \<and> already_stable [ex_C, ex_Dm]
   \<and> ensure_stability (merge_similar_chords [ex_C, ex_Dm]) = [ex_C, ex_Dm]"
proof -
  have m: "already_merged [ex_C, ex_Dm]"
    by (simp add: should_merge_def ex_C_def ex_Dm_def MERGE_THRESHOLD_def)
  have s: "already_stable [ex_C, ex_Dm]"
    by (simp add: already_stable_def ex_C_def ex_Dm_def MIN_CHORD_DURATION_def)
  show ?thesis using m s C9_merge_stability_idempotent [OF m s] by simp
qed

subsection \<open>Chord window smoother\<close>

lemma timeline_points_le [simp]:
  "c \<le> e \<Longrightarrow> timeline_points c e = c # timeline_points (c + timeline_resolution) e"
  by (subst timeline_points.simps) simp

lemma timeline_points_gt [simp]:
  "e < c \<Longrightarrow> timeline_points c e = []"
  by (subst timeline_points.simps) simp

lemma filter_window_eq: "filter_window = 3"
  by (simp add: filter_window_def timeline_resolution_def)

subsubsection \<open>Rounding to the nearest double\<close>

lemma binade_from_eq:
  assumes "e \<le> k" "k \<le> 1023" "a < 2 powi (k + 1)" "e = k \<or> 2 powi k \<le> a"
  shows "binade_from e a = k"
  using assms
proof (induction e a rule: binade_from.induct)
  case (1 e a)
  show ?case
  proof (cases "e = k")
    case True
    then show ?thesis using 1(4) by (subst binade_from.simps) simp
  next
    case False
    with 1(2) have lt: "e < k" by simp
    then have "e + 1 \<le> k" by simp
    then have "(2::real) powi (e + 1) \<le> 2 powi k"
      by (intro power_int_increasing) simp_all
    with False 1(5) have le: "2 powi (e + 1) \<le> a" by simp
    from lt 1(3) have e: "e < 1023" by simp
    have "binade_from (e + 1) a = k"
      using e le \<open>e + 1 \<le> k\<close> 1(3) 1(4) False 1(5) by (intro 1(1)) simp_all
    then show ?thesis using e le by (subst binade_from.simps) simp
  qed
qed

lemma binade_eq:
  assumes "- 1022 \<le> k" "k \<le> 1023" "a < 2 powi (k + 1)" "k = - 1022 \<or> 2 powi k \<le> a"
  shows "binade a = k"
  unfolding binade_def using assms by (intro binade_from_eq) auto

lemma round_double_eq:
  assumes "- 1022 \<le> k" "k \<le> 1023" "\<bar>x\<bar> < 2 powi (k + 1)" "k = - 1022 \<or> 2 powi k \<le> \<bar>x\<bar>"
  shows "round_double x = of_int (round_half_even (x / 2 powi (k - 52))) * 2 powi (k - 52)"
  using binade_eq [OF assms] by (simp add: round_double_def ulp_def)

lemma fl_add_grid_points:
  "fl_add 0 (1 / 2) = 1 / 2" "fl_add (1 / 2) (1 / 2) = 1" "fl_add 1 (1 / 2) = 3 / 2"
  "fl_add (3 / 2) (1 / 2) = 2" "fl_add 2 (1 / 2) = 5 / 2" "fl_add (5 / 2) (1 / 2) = 3"
  "fl_add 3 (1 / 2) = 7 / 2" "fl_add (7 / 2) (1 / 2) = 4" "fl_add 4 (1 / 2) = 9 / 2"
  "fl_add (9 / 2) (1 / 2) = 5" "fl_add 5 (1 / 2) = 11 / 2" "fl_add (11 / 2) (1 / 2) = 6"
proof -
  note ev = round_half_even_def Let_def
  show "fl_add 0 (1 / 2) = 1 / 2" unfolding fl_add_def
    by (subst round_double_eq [where k = "- 1"]) (simp_all add: ev)
  show "fl_add (1 / 2) (1 / 2) = 1" unfolding fl_add_def
    by (subst round_double_eq [where k = 0]) (simp_all add: ev)
  show "fl_add 1 (1 / 2) = 3 / 2" unfolding fl_add_def
    by (subst round_double_eq [where k = 0]) (simp_all add: ev)
  show "fl_add (3 / 2) (1 / 2) = 2" unfolding fl_add_def
    by (subst round_double_eq [where k = 1]) (simp_all add: ev)
  show "fl_add 2 (1 / 2) = 5 / 2" unfolding fl_add_def
    by (subst round_double_eq [where k = 1]) (simp_all add: ev)
  show "fl_add (5 / 2) (1 / 2) = 3" unfolding fl_add_def
    by (subst round_double_eq [where k = 1]) (simp_all add: ev)
  show "fl_add 3 (1 / 2) = 7 / 2" unfolding fl_add_def
    by (subst round_double_eq [where k = 1]) (simp_all add: ev)
  show "fl_add (7 / 2) (1 / 2) = 4" unfolding fl_add_def
    by (subst round_double_eq [where k = 2]) (simp_all add: ev)
  show "fl_add 4 (1 / 2) = 9 / 2" unfolding fl_add_def
    by (subst round_double_eq [where k = 2]) (simp_all add: ev)
  show "fl_add (9 / 2) (1 / 2) = 5" unfolding fl_add_def
    by (subst round_double_eq [where k = 2]) (simp_all add: ev)
  show "fl_add 5 (1 / 2) = 11 / 2" unfolding fl_add_def
    by (subst round_double_eq [where k = 2]) (simp_all add: ev)
  show "fl_add (11 / 2) (1 / 2) = 6" unfolding fl_add_def
    by (subst round_double_eq [where k = 2]) (simp_all add: ev)
qed


subsubsection \<open>The sampling grid on doubles\<close>

lemma timeline_points_fl_le:
  "c \<le> e \<Longrightarrow> timeline_points_fl c e
     = Option.bind (timeline_points_fl (fl_add c timeline_resolution) e) (\<lambda>rest. Some (c # rest))"
  by (subst timeline_points_fl.simps) simp

lemma timeline_points_fl_gt: "e < c \<Longrightarrow> timeline_points_fl c e = Some []"
  by (subst timeline_points_fl.simps) simp




text \<open>When the sum is rounded back to \<open>current_time\<close> the loop makes no progress: at
  \<open>2^60\<close> the spacing of the doubles is 256.\<close>

lemma fl_add_stall: "fl_add (2 ^ 60) timeline_resolution = 2 ^ 60"
  unfolding fl_add_def timeline_resolution_def
  by (subst round_double_eq [where k = 60]) (simp_all add: round_half_even_def Let_def)

lemma timeline_points_fl_stall: "timeline_points_fl (2 ^ 60) (2 ^ 60) = None"
proof -
  define b :: real where "b = 2 ^ 60"
  have st: "fl_add b timeline_resolution = b"
    unfolding b_def by (rule fl_add_stall)
  have "\<not> (c = b \<and> e = b)" if "timeline_points_fl c e = Some y" for c e y
  proof (rule timeline_points_fl.raw_induct [where P = "\<lambda>c e y. \<not> (c = b \<and> e = b)", OF _ that])
    fix f :: "real \<Rightarrow> real \<Rightarrow> real list option" and c e :: real and y
    assume ih: "\<And>c e y. f c e = Some y \<Longrightarrow> \<not> (c = b \<and> e = b)"
      and eq: "(if c \<le> e
                then Option.bind (f (fl_add c timeline_resolution) e) (\<lambda>rest. Some (c # rest))
                else Some []) = Some y"
    show "\<not> (c = b \<and> e = b)"
    proof
      assume "c = b \<and> e = b"
      then have c: "c = b" and e: "e = b" by simp_all
      from eq obtain rest where "f (fl_add b timeline_resolution) b = Some rest"
        unfolding c e by (auto split: bind_splits)
      then have "f b b = Some rest" by (simp only: st)
      from ih [OF this] show False by simp
    qed
  qed
  then have "timeline_points_fl b b \<noteq> Some y" for y by blast
  then show ?thesis unfolding b_def by (cases "timeline_points_fl (2 ^ 60) (2 ^ 60)") auto
qed


text \<open>The grid of the program is the exact grid whenever no sum along it is rounded, and
  then the smoother on doubles returns what the smoother in exact arithmetic returns; this
  is the case for the chords C [0, 2], F [1.8, 3.8], G [3.6, 5.6], whose grid points are the
  multiples of 0.5 up to 5.5.\<close>

lemma timeline_points_fl_exact:
  assumes "\<forall>t \<in> set (timeline_points c e). fl_add t timeline_resolution = t + timeline_resolution"
  shows "timeline_points_fl c e = Some (timeline_points c e)"
  using assms
proof (induction c e rule: timeline_points.induct)
  case (1 c e)
  show ?case
  proof (cases "c \<le> e")
    case True
    then have pts: "timeline_points c e = c # timeline_points (c + timeline_resolution) e"
      by simp
    with 1(2) have step: "fl_add c timeline_resolution = c + timeline_resolution"
      and rest: "\<forall>t \<in> set (timeline_points (c + timeline_resolution) e).
                   fl_add t timeline_resolution = t + timeline_resolution"
      by simp_all
    have "timeline_points_fl (c + timeline_resolution) e
            = Some (timeline_points (c + timeline_resolution) e)"
      using True rest by (rule 1(1))
    then show ?thesis
      using True step pts by (subst timeline_points_fl_le) simp_all
  next
    case False
    then show ?thesis by (simp add: timeline_points_fl_gt)
  qed
qed

lemma segment_loop_fl_exact:
  assumes "fl_add prev timeline_resolution = prev + timeline_resolution"
    and "\<forall>t \<in> snd ` set rest. fl_add t timeline_resolution = t + timeline_resolution"
  shows "segment_loop_fl ce e cs st prev rest = segment_loop ce e cs st prev rest"
  using assms
proof (induction rest arbitrary: cs st prev)
  case Nil
  show ?case by simp
next
  case (Cons p rest)
  obtain s t where p: "p = (s, t)" by (cases p)
  from Cons.prems(2) p have t: "fl_add t timeline_resolution = t + timeline_resolution"
    and r: "\<forall>t \<in> snd ` set rest. fl_add t timeline_resolution = t + timeline_resolution"
    by simp_all
  show ?case
    unfolding p using Cons.prems(1) Cons.IH [OF t r] by simp
qed

lemma zip_segment_exact:
  assumes "\<forall>t \<in> set pts. fl_add t timeline_resolution = t + timeline_resolution"
    and "zip sm pts = (s0, t0) # rest"
  shows "segment_loop_fl ce e s0 t0 t0 rest = segment_loop ce e s0 t0 t0 rest"
proof -
  have mem: "p \<in> set (zip sm pts)" if "p = (s0, t0) \<or> p \<in> set rest" for p
    using that unfolding assms(2) by auto
  have "(s0, t0) \<in> set (zip sm pts)" by (rule mem) simp
  then have t0: "t0 \<in> set pts" by (rule set_zip_rightD)
  have r: "t \<in> set pts" if "t \<in> snd ` set rest" for t
  proof -
    from that obtain s where "(s, t) \<in> set rest" by force
    then have "(s, t) \<in> set (zip sm pts)" by (intro mem) simp
    then show ?thesis by (rule set_zip_rightD)
  qed
  show ?thesis
  proof (rule segment_loop_fl_exact)
    show "fl_add t0 timeline_resolution = t0 + timeline_resolution" using assms(1) t0 by blast
    show "\<forall>t\<in>snd ` set rest. fl_add t timeline_resolution = t + timeline_resolution"
      using assms(1) r by blast
  qed
qed

lemma smooth_chord_progression_fl_exact:
  assumes "\<forall>t \<in> set (timeline_points (Min (set (map c_onset ce))) (Max (set (map c_offset ce)))).
             fl_add t timeline_resolution = t + timeline_resolution"
  shows "smooth_chord_progression_fl ce = Some (smooth_chord_progression ce)"
proof -
  let ?s = "Min (set (map c_onset ce))" and ?e = "Max (set (map c_offset ce))"
  let ?pts = "timeline_points ?s ?e"
  let ?syms = "map (active_symbol ce) ?pts"
  let ?sm = "map (smoothed_symbol ?syms) [0..<length ?syms]"
  have grid: "timeline_points_fl ?s ?e = Some ?pts"
    using assms by (rule timeline_points_fl_exact)
  show ?thesis
  proof (cases "length ce \<le> 2 \<or> ?e - ?s \<le> 0 \<or> \<not> filter_window \<le> length ?pts")
    case True
    then show ?thesis
      by (auto simp add: smooth_chord_progression_fl_def smooth_chord_progression_def
          Let_def grid simp del: set_map timeline_points_le timeline_points_gt)
  next
    case False
    show ?thesis
    proof (cases "zip ?sm ?pts")
      case Nil
      with False show ?thesis
        by (simp add: smooth_chord_progression_fl_def smooth_chord_progression_def
            Let_def grid del: set_map timeline_points_le timeline_points_gt)
    next
      case (Cons p rest)
      obtain s0 t0 where p: "p = (s0, t0)" by (cases p)
      from Cons p have z: "zip ?sm ?pts = (s0, t0) # rest" by simp
      note seg = zip_segment_exact [OF assms z, of ce ?e]
      from False z seg show ?thesis
        by (simp add: smooth_chord_progression_fl_def smooth_chord_progression_def
            Let_def grid del: set_map timeline_points_le timeline_points_gt)
    qed
  qed
qed

lemma ex_grid_exact:
  "smooth_chord_progression_fl [ex_C, ex_F, ex_G] = Some (smooth_chord_progression [ex_C, ex_F, ex_G])"
  by (rule smooth_chord_progression_fl_exact)
     (simp add: ex_C_def ex_F_def ex_G_def timeline_resolution_def fl_add_grid_points)





text \<open>
  C7. The smoother is meant to turn every maximal run of one label into exactly one chord,
  so that no two consecutive output chords carry the same symbol. On the three window
  chords C [0, 2], F [1.8, 3.8], G [3.6, 5.6] the smoothed labels are four times C, four
  times F and four times G; the test \<^verbatim>\<open>i == len(smoothed_symbols) - 1\<close> closes the
  last run one grid point early and the block "Handle last chord" emits its remainder as
  a second chord: the run of G yields the two chords G [4, 5.5] and G [5.5, 5.6].
\<close>

theorem C7_last_run_split:
  "smooth_chord_progression [ex_C, ex_F, ex_G] =
     [\<lparr> c_onset = 0, c_offset = 2, chord_symbol = ''C'', c_confidence = 0.9,
        pitch_classes = {0, 4, 7}, root_pc = 0, chord_type = ''major'' \<rparr>,
      \<lparr> c_onset = 2, c_offset = 4, chord_symbol = ''F'', c_confidence = 0.8,
        pitch_classes = {0, 5, 9}, root_pc = 0, chord_type = ''major'' \<rparr>,
      \<lparr> c_onset = 4, c_offset = 5.5, chord_symbol = ''G'', c_confidence = 0.7,
        pitch_classes = {2, 7, 11}, root_pc = 2, chord_type = ''major'' \<rparr>,
      \<lparr> c_onset = 5.5, c_offset = 5.6, chord_symbol = ''G'', c_confidence = 0.7,
        pitch_classes = {2, 7, 11}, root_pc = 2, chord_type = ''major'' \<rparr>]"
  by (simp add: smooth_chord_progression_def ex_C_def ex_F_def ex_G_def filter_window_eq
      timeline_resolution_def active_symbol_def smoothed_symbol_def most_common_symbol_def
      Counter_def run_chord_def upt_rec)

subsection \<open>Chord identifier\<close>

lemma best_fold_none:
  "\<forall>c\<in>set cs. sc c = None \<Longrightarrow> foldl (best_step sc pay) st cs = st"
  by (induction cs arbitrary: st) (auto simp: best_step_def)

lemma first_best_snoc_none:
  assumes "first_best sc cs i" and "sc c = None"
  shows "first_best sc (cs @ [c]) i"
  using assms unfolding first_best_def
  by (auto simp: nth_append less_Suc_eq)

lemma first_best_snoc_le:
  assumes "first_best sc cs i" and "sc c = Some s" and "s \<le> the (sc (cs ! i))"
  shows "first_best sc (cs @ [c]) i"
  using assms unfolding first_best_def
  by (auto simp: nth_append less_Suc_eq)

lemma first_best_snoc_gt:
  assumes "first_best sc cs i" and "sc c = Some s" and "s > the (sc (cs ! i))"
  shows "first_best sc (cs @ [c]) (length cs)"
  using assms unfolding first_best_def
  by (fastforce simp: nth_append less_Suc_eq)

lemma first_best_snoc_first:
  assumes "\<forall>c\<in>set cs. sc c = None" and "sc c = Some s"
  shows "first_best sc (cs @ [c]) (length cs)"
  using assms unfolding first_best_def
  by (auto simp: nth_append less_Suc_eq)

lemma best_fold_some:
  assumes "\<forall>c\<in>set cs. \<forall>s. sc c = Some s \<longrightarrow> 0 < s"
    and "\<exists>c\<in>set cs. sc c \<noteq> None"
  shows "\<exists>i. first_best sc cs i
             \<and> foldl (best_step sc pay) (None, 0) cs = (Some (pay (cs ! i)), the (sc (cs ! i)))"
  using assms
proof (induction cs rule: rev_induct)
  case Nil
  then show ?case by simp
next
  case (snoc c cs)
  have pos: "\<forall>c\<in>set cs. \<forall>s. sc c = Some s \<longrightarrow> 0 < s"
    using snoc.prems(1) by simp
  show ?case
  proof (cases "\<exists>d\<in>set cs. sc d \<noteq> None")
    case True
    from snoc.IH [OF pos True] obtain i where
      fb: "first_best sc cs i" and
      fo: "foldl (best_step sc pay) (None, 0) cs = (Some (pay (cs ! i)), the (sc (cs ! i)))"
      by blast
    have ilt: "i < length cs" using fb by (simp add: first_best_def)
    show ?thesis
    proof (cases "sc c")
      case None
      have "first_best sc (cs @ [c]) i" using fb None by (rule first_best_snoc_none)
      moreover have "foldl (best_step sc pay) (None, 0) (cs @ [c])
                     = (Some (pay ((cs @ [c]) ! i)), the (sc ((cs @ [c]) ! i)))"
        using fo None ilt by (simp add: best_step_def nth_append)
      ultimately show ?thesis by blast
    next
      case (Some s)
      show ?thesis
      proof (cases "s > the (sc (cs ! i))")
        case gt: True
        have "first_best sc (cs @ [c]) (length cs)"
          using fb Some gt by (rule first_best_snoc_gt)
        moreover have "foldl (best_step sc pay) (None, 0) (cs @ [c])
                     = (Some (pay ((cs @ [c]) ! length cs)), the (sc ((cs @ [c]) ! length cs)))"
          using fo Some gt by (simp add: best_step_def)
        ultimately show ?thesis by blast
      next
        case le: False
        then have le': "s \<le> the (sc (cs ! i))" by simp
        have "first_best sc (cs @ [c]) i"
          using fb Some le' by (rule first_best_snoc_le)
        moreover have "foldl (best_step sc pay) (None, 0) (cs @ [c])
                     = (Some (pay ((cs @ [c]) ! i)), the (sc ((cs @ [c]) ! i)))"
          using fo Some le ilt by (simp add: best_step_def nth_append)
        ultimately show ?thesis by blast
      qed
    qed
  next
    case False
    then have allnone: "\<forall>d\<in>set cs. sc d = None" by simp
    then have fo: "foldl (best_step sc pay) (None, 0) cs = (None, 0)"
      by (rule best_fold_none)
    from False snoc.prems(2) obtain s where Some: "sc c = Some s" by auto
    then have "0 < s" using snoc.prems(1) by simp
    have "first_best sc (cs @ [c]) (length cs)"
      using allnone Some by (rule first_best_snoc_first)
    moreover have "foldl (best_step sc pay) (None, 0) (cs @ [c])
                     = (Some (pay ((cs @ [c]) ! length cs)), the (sc ((cs @ [c]) ! length cs)))"
      using fo Some \<open>0 < s\<close> by (simp add: best_step_def)
    ultimately show ?thesis by blast
  qed
qed


lemma list_index_note_names:
  "0 \<le> pc \<Longrightarrow> pc < 12 \<Longrightarrow> list_index note_names pc = Inr (note_names ! nat pc)"
  by (simp add: list_index_def note_names_def)

lemma root_strength_bonus_pos: "0 < root_strength_bonus pcs w rt"
proof (cases w)
  case None
  then show ?thesis by (simp add: root_strength_bonus_def)
next
  case (Some ws)
  show ?thesis
  proof (cases "ws = []")
    case True
    with Some show ?thesis by (simp add: root_strength_bonus_def)
  next
    case False
    define rw where "rw = (case map_of ws rt of None \<Rightarrow> 0.0 | Some x \<Rightarrow> x)"
    define mw where "mw = Max (set (map snd ws))"
    define b where "b = (if rw > 0 then 1.0 + (rw / mw) * 0.8 else 1.0)"
    have b: "0 < b"
    proof (cases "rw > 0")
      case True
      then obtain x where x: "map_of ws rt = Some x" "x = rw"
        by (auto simp: rw_def split: option.splits)
      then have "(rt, rw) \<in> set ws" by (auto dest: map_of_SomeD)
      then have "rw \<in> set (map snd ws)" by force
      then have "rw \<le> mw" unfolding mw_def by (intro Max_ge) auto
      with True have "0 < mw" by simp
      with True have "0 \<le> rw / mw" by simp
      then show ?thesis using True by (simp add: b_def)
    next
      case False
      then show ?thesis by (simp add: b_def)
    qed
    have "root_strength_bonus pcs w rt = (if rt = Min (set pcs) then b * 1.3 else b)"
      using Some False
      by (simp add: root_strength_bonus_def Let_def rw_def mw_def b_def)
    with b show ?thesis by simp
  qed
qed

lemma chord_tests_wf:
  "t \<in> set chord_tests \<Longrightarrow> finite (fst t) \<and> 0 < card (fst t) \<and> 0 < snd (snd (snd t))"
  by (auto simp: chord_tests_def)

lemma if_mult_one: "(if c then x * a else x) = x * (if c then a else (1::real))"
  by simp

lemma chord_score_pos:
  assumes "chord_score pcs k w rt t = Some s" and "t \<in> set chord_tests"
  shows "0 < s"
proof -
  obtain req ty suf base where t: "t = (req, ty, suf, base)" by (cases t) auto
  from chord_tests_wf [OF assms(2)] t have wf: "finite req" "0 < card req" "0 < base" by auto
  from assms(1) t have sub: "req \<subseteq> intervals_set pcs rt"
    by (auto simp: chord_score_def split: if_splits)
  have fin: "finite (intervals_set pcs rt)" by (simp add: intervals_set_def)
  have "card req \<le> card (intervals_set pcs rt)" using sub fin by (rule card_mono[rotated])
  with wf have cpos: "0 < card (intervals_set pcs rt)" by simp
  define f1 :: real where "f1 = (if intervals_set pcs rt = req then 1.5 else 1)"
  define f2 :: real where "f2 = (if is_in_key rt k then 1.2 else 1)"
  define f3 :: real where "f3 = (if rt = key_pc k
                          \<and> ((mode k = ''major'' \<and> ty = ''major'')
                             \<or> (mode k = ''minor'' \<and> ty = ''minor''))
                       then 1.4 else 1)"
  have f: "0 < f1" "0 < f2" "0 < f3" by (simp_all add: f1_def f2_def f3_def)
  have ratio: "0 < base * (real (card req) / real (card (intervals_set pcs rt)))"
    using wf cpos by simp
  have bonus: "0 < root_strength_bonus pcs w rt" by (rule root_strength_bonus_pos)
  have "chord_score pcs k w rt t
        = Some (base * (real (card req) / real (card (intervals_set pcs rt))) * f1
                * root_strength_bonus pcs w rt * f2 * f3)"
    unfolding chord_score_def t f1_def f2_def f3_def
    by (simp only: prod.case sub if_True Let_def if_mult_one)
  with assms(1) have "s = base * (real (card req) / real (card (intervals_set pcs rt))) * f1
                * root_strength_bonus pcs w rt * f2 * f3"
    by simp
  moreover have "0 < base * (real (card req) / real (card (intervals_set pcs rt))) * f1
                * root_strength_bonus pcs w rt * f2 * f3"
    using wf cpos bonus f by (intro mult_pos_pos divide_pos_pos) simp_all
  ultimately show ?thesis by (simp only:)
qed

lemma test_step_best_step:
  "test_step pcs k w rt (note_names ! nat rt) st t
   = best_step (candidate_score pcs k w) candidate_payload st (rt, t)"
  by (simp add: test_step_def best_step_def candidate_score_def candidate_payload_def
      split: option.splits)

lemma roots_loop_foldl:
  assumes "\<forall>rt\<in>set roots. 0 \<le> rt \<and> rt < 12"
  shows "roots_loop pcs k w st roots
         = Inr (foldl (best_step (candidate_score pcs k w) candidate_payload) st
                  (concat (map (\<lambda>rt. map (\<lambda>test. (rt, test)) chord_tests) roots)))"
  using assms
proof (induction roots arbitrary: st)
  case Nil
  then show ?case by simp
next
  case (Cons rt roots)
  have idx: "list_index note_names rt = Inr (note_names ! nat rt)"
    using Cons.prems by (simp add: list_index_note_names)
  have inner: "foldl (test_step pcs k w rt (note_names ! nat rt)) st ts
        = foldl (best_step (candidate_score pcs k w) candidate_payload) st
            (map (\<lambda>test. (rt, test)) ts)" for ts st
    by (induction ts arbitrary: st) (simp_all add: test_step_best_step)
  show ?case
    using Cons.prems by (simp add: idx inner Cons.IH)
qed

lemma candidates_pos:
  "\<forall>c\<in>set (candidates pcs). \<forall>s. candidate_score pcs k w c = Some s \<longrightarrow> 0 < s"
  by (auto simp: candidates_def candidate_score_def intro: chord_score_pos)

text \<open>
  C5 (amended). For a non-empty list of pitch classes in \<open>0..11\<close>: when no row of the
  table matches for any root, the identifier returns the name of the lowest pitch class
  followed by \<open>?\<close> with type \<open>unknown\<close>; otherwise it returns the symbol and type of
  the first best candidate, where the candidates are ordered by the position of the root
  in the given list (which the window analysis sorts by descending weight, not by pitch
  class) and then by table order.
\<close>

theorem C5_identify_chord_first_best:
  assumes "pcs \<noteq> []" and "\<forall>pc\<in>set pcs. 0 \<le> pc \<and> pc < 12"
  shows "if \<forall>c\<in>set (candidates pcs). candidate_score pcs k w c = None
         then identify_chord pcs k w = Inr (note_names ! nat (Min (set pcs)) @ ''?'', ''unknown'')
         else \<exists>i. first_best (candidate_score pcs k w) (candidates pcs) i
                  \<and> identify_chord pcs k w = Inr (candidate_result (candidates pcs ! i))"
proof -
  have loop: "roots_loop pcs k w (None, 0) pcs
        = Inr (foldl (best_step (candidate_score pcs k w) candidate_payload) (None, 0)
                 (candidates pcs))"
    using assms(2) by (simp add: roots_loop_foldl candidates_def)
  show ?thesis
  proof (cases "\<forall>c\<in>set (candidates pcs). candidate_score pcs k w c = None")
    case True
    then have "foldl (best_step (candidate_score pcs k w) candidate_payload) (None, 0)
                 (candidates pcs) = (None, 0)"
      by (rule best_fold_none)
    moreover have "Min (set pcs) \<in> set pcs" using assms(1) by (intro Min_in) auto
    then have "list_index note_names (Min (set pcs)) = Inr (note_names ! nat (Min (set pcs)))"
      using assms(2) by (simp add: list_index_note_names)
    ultimately show ?thesis
      using True assms(1) loop by (simp add: identify_chord_def)
  next
    case False
    then have ex: "\<exists>c\<in>set (candidates pcs). candidate_score pcs k w c \<noteq> None" by simp
    from best_fold_some [OF candidates_pos ex, of candidate_payload]
    obtain i where fb: "first_best (candidate_score pcs k w) (candidates pcs) i"
      and fo: "foldl (best_step (candidate_score pcs k w) candidate_payload) (None, 0)
                 (candidates pcs)
               = (Some (candidate_payload (candidates pcs ! i)),
                  the (candidate_score pcs k w (candidates pcs ! i)))"
      by blast
    have "identify_chord pcs k w = Inr (candidate_result (candidates pcs ! i))"
      using assms(1) loop fo
      by (simp add: identify_chord_def candidate_payload_def candidate_result_def)
    with fb False show ?thesis by auto
  qed
qed

theorem C5_witness:
  "[0, 4, 7] \<noteq> ([] :: int list)
   \<and> list_all (\<lambda>pc. 0 \<le> pc \<and> pc < 12) [0, 4, 7 :: int]
   \<and> \<not> (\<forall>c\<in>set (candidates [0, 4, 7]).
            candidate_score [0, 4, 7] ex_key0 (Some ex_weights_C) c = None)
   \<and> (\<exists>i. first_best (candidate_score [0, 4, 7] ex_key0 (Some ex_weights_C))
               (candidates [0, 4, 7]) i
          \<and> identify_chord [0, 4, 7] ex_key0 (Some ex_weights_C)
              = Inr (candidate_result (candidates [0, 4, 7] ! i)))"
proof -
  have a: "[0, 4, 7] \<noteq> ([] :: int list)" by simp
  have b: "\<forall>pc\<in>set [0, 4, 7 :: int]. 0 \<le> pc \<and> pc < 12" by simp
  have "candidate_score [0, 4, 7] ex_key0 (Some ex_weights_C) (0, ({0, 4, 7}, ''major'', [], 10))
        \<noteq> None"
    by code_simp
  moreover have "(0, ({0, 4, 7}, ''major'', [], 10)) \<in> set (candidates [0, 4, 7])"
    by (simp add: candidates_def chord_tests_def)
  ultimately have c: "\<not> (\<forall>c\<in>set (candidates [0, 4, 7]).
            candidate_score [0, 4, 7] ex_key0 (Some ex_weights_C) c = None)"
    by (auto dest: bspec)
  show ?thesis
    using a b c C5_identify_chord_first_best [OF a b, of ex_key0 "Some ex_weights_C"]
    by (simp del: set_simps)
qed

text \<open>
  C5 as stated fails where it says that a tie goes to the lowest root. With the weights
  G# 1.6, E 1.6, C 0.48 (in this order, as the window analysis lists them) the augmented
  triad scores 29.16 on the roots G# and E alike; the identifier keeps G#, the root it
  met first, while trying the roots from the lowest upwards gives E.
\<close>

theorem C5_tie_keeps_first_listed_root:
  "identify_chord [8, 4, 0] ex_key0 (Some ex_weights_aug) = Inr (''G#aug'', ''aug'')
   \<and> chord_score [8, 4, 0] ex_key0 (Some ex_weights_aug) 8 ({0, 4, 8}, ''aug'', ''aug'', 9)
       = Some 29.16
   \<and> chord_score [8, 4, 0] ex_key0 (Some ex_weights_aug) 4 ({0, 4, 8}, ''aug'', ''aug'', 9)
       = Some 29.16
   \<and> significant_pitch_classes ex_weights_aug = [8, 4, 0]
   \<and> identify_chord (sort [8, 4, 0]) ex_key0 (Some ex_weights_aug) = Inr (''Eaug'', ''aug'')"
  by code_simp

subsection \<open>Key detector\<close>

lemma first_best_total_snoc_le:
  assumes "first_best (\<lambda>c. Some (f c)) cs i" and "f c \<le> f (cs ! i)"
  shows "first_best (\<lambda>c. Some (f c)) (cs @ [c]) i"
  using assms unfolding first_best_def
  by (auto simp: nth_append less_Suc_eq)

lemma first_best_total_snoc_gt:
  assumes "first_best (\<lambda>c. Some (f c)) cs i" and "f c > f (cs ! i)"
  shows "first_best (\<lambda>c. Some (f c)) (cs @ [c]) (length cs)"
  using assms unfolding first_best_def
  by (fastforce simp: nth_append less_Suc_eq)

lemma max_fold_first_best:
  assumes "cs \<noteq> []"
  shows "\<exists>i. first_best (\<lambda>c. Some (f c)) cs i
             \<and> foldl (max_step f pay) (f (hd cs), pay (hd cs)) (tl cs) = (f (cs ! i), pay (cs ! i))"
  using assms
proof (induction cs rule: rev_induct)
  case Nil
  then show ?case by simp
next
  case (snoc c cs)
  show ?case
  proof (cases "cs = []")
    case True
    have "first_best (\<lambda>c. Some (f c)) [c] 0" by (simp add: first_best_def)
    with True show ?thesis by auto
  next
    case False
    from snoc.IH [OF False] obtain i where
      fb: "first_best (\<lambda>c. Some (f c)) cs i" and
      fo: "foldl (max_step f pay) (f (hd cs), pay (hd cs)) (tl cs) = (f (cs ! i), pay (cs ! i))"
      by blast
    have ilt: "i < length cs" using fb by (simp add: first_best_def)
    have fold_snoc: "foldl (max_step f pay) (f (hd (cs @ [c])), pay (hd (cs @ [c]))) (tl (cs @ [c]))
          = max_step f pay (f (cs ! i), pay (cs ! i)) c"
      using False fo by simp
    show ?thesis
    proof (cases "f c > f (cs ! i)")
      case True
      have "first_best (\<lambda>c. Some (f c)) (cs @ [c]) (length cs)"
        using fb True by (rule first_best_total_snoc_gt)
      moreover have "max_step f pay (f (cs ! i), pay (cs ! i)) c
                     = (f ((cs @ [c]) ! length cs), pay ((cs @ [c]) ! length cs))"
        using True by (simp add: max_step_def)
      ultimately show ?thesis using fold_snoc by metis
    next
      case False
      then have le: "f c \<le> f (cs ! i)" by simp
      have "first_best (\<lambda>c. Some (f c)) (cs @ [c]) i"
        using fb le by (rule first_best_total_snoc_le)
      moreover have "max_step f pay (f (cs ! i), pay (cs ! i)) c
                     = (f ((cs @ [c]) ! i), pay ((cs @ [c]) ! i))"
        using False ilt by (simp add: max_step_def nth_append)
      ultimately show ?thesis using fold_snoc by metis
    qed
  qed
qed

lemma correlate_ge: "- 1 \<le> correlate_with_profile w r p"
  by (simp add: correlate_with_profile_def np_corrcoef_def Let_def)

lemma key_step_max_step:
  "key_step w st r
   = max_step (key_correlation w) key_payload
       (max_step (key_correlation w) key_payload st (r, ''major'')) (r, ''minor'')"
  by (simp add: key_step_def max_step_def key_correlation_def key_payload_def Let_def)

lemma foldl_key_step:
  "foldl (key_step w) st rs
   = foldl (max_step (key_correlation w) key_payload) st
       (concat (map (\<lambda>r. [(r, ''major''), (r, ''minor'')]) rs))"
  by (induction rs arbitrary: st) (simp_all add: key_step_max_step)

lemma key_candidates_split:
  "key_candidates = (0, ''major'') # tl key_candidates" "key_candidates \<noteq> []"
  by (simp_all add: key_candidates_def upt_rec)

lemma first_candidate_step:
  "max_step (key_correlation w) key_payload (- 1, 0, ''major'') (0, ''major'')
   = (key_correlation w (0, ''major''), key_payload (0, ''major''))"
proof -
  have "- 1 \<le> key_correlation w (0, ''major'')"
    by (simp add: key_correlation_def correlate_ge)
  then have "key_correlation w (0, ''major'') = - 1 \<or> key_correlation w (0, ''major'') > - 1"
    by linarith
  then show ?thesis
    by (auto simp: max_step_def key_payload_def)
qed

lemma key_loop_first_best:
  "\<exists>i. first_best (\<lambda>c. Some (key_correlation w c)) key_candidates i
       \<and> foldl (key_step w) (- 1, 0, ''major'') [0..<12]
           = (key_correlation w (key_candidates ! i), key_payload (key_candidates ! i))"
proof -
  have "foldl (key_step w) (- 1, 0, ''major'') [0..<12]
        = foldl (max_step (key_correlation w) key_payload) (- 1, 0, ''major'') key_candidates"
    by (simp only: foldl_key_step key_candidates_def)
  also have "\<dots> = foldl (max_step (key_correlation w) key_payload)
                     (key_correlation w (hd key_candidates), key_payload (hd key_candidates))
                     (tl key_candidates)"
    by (subst key_candidates_split(1), simp only: foldl_Cons first_candidate_step list.sel)
       (simp add: key_candidates_def upt_rec)
  finally have eq: "foldl (key_step w) (- 1, 0, ''major'') [0..<12]
        = foldl (max_step (key_correlation w) key_payload)
            (key_correlation w (hd key_candidates), key_payload (hd key_candidates))
            (tl key_candidates)" .
  from max_fold_first_best [OF key_candidates_split(2), of "key_correlation w" key_payload]
  show ?thesis using eq by simp
qed

text \<open>
  C4. For every note list: an empty list or a histogram of total weight zero gives the
  default C major with confidence 0; otherwise the detector returns the first best of the
  24 candidates (roots 0 to 11, major before minor at each root), that is the candidate
  of greatest correlation, among equally correlated ones the earliest in this order, and
  the confidence is that correlation clamped to \<open>[0, 1]\<close>.
\<close>

theorem C4_estimate_key_first_best:
  "if note_events = [] \<or> sum_list (key_histogram note_events exclude_short_notes) = 0
   then estimate_key note_events exclude_short_notes
          = \<lparr> key_pc = 0, mode = ''major'', k_confidence = 0 \<rparr>
   else \<exists>i. first_best
               (\<lambda>c. Some (key_correlation (normalized_histogram note_events exclude_short_notes) c))
               key_candidates i
           \<and> estimate_key note_events exclude_short_notes
               = \<lparr> key_pc = int (fst (key_candidates ! i)),
                   mode = snd (key_candidates ! i),
                   k_confidence =
                     max 0 (min 1 (key_correlation
                        (normalized_histogram note_events exclude_short_notes)
                        (key_candidates ! i))) \<rparr>"
proof (cases "note_events = [] \<or> sum_list (key_histogram note_events exclude_short_notes) = 0")
  case True
  then show ?thesis by (auto simp: estimate_key_def Let_def)
next
  case False
  define w where "w = normalized_histogram note_events exclude_short_notes"
  from key_loop_first_best [of w] obtain i where
    fb: "first_best (\<lambda>c. Some (key_correlation w c)) key_candidates i" and
    fo: "foldl (key_step w) (- 1, 0, ''major'') [0..<12]
           = (key_correlation w (key_candidates ! i), key_payload (key_candidates ! i))"
    by blast
  have "estimate_key note_events exclude_short_notes
        = \<lparr> key_pc = int (fst (key_candidates ! i)), mode = snd (key_candidates ! i),
            k_confidence = max 0 (min 1 (key_correlation w (key_candidates ! i))) \<rparr>"
    using False fo
    by (simp add: estimate_key_def Let_def w_def normalized_histogram_def key_payload_def)
  with fb False show ?thesis unfolding w_def by auto
qed

theorem C4_witness:
  "ex_notes \<noteq> [] \<and> sum_list (key_histogram ex_notes True) \<noteq> 0
   \<and> (\<exists>i. first_best (\<lambda>c. Some (key_correlation (normalized_histogram ex_notes True) c))
               key_candidates i
          \<and> estimate_key ex_notes True
               = \<lparr> key_pc = int (fst (key_candidates ! i)),
                   mode = snd (key_candidates ! i),
                   k_confidence =
                     max 0 (min 1 (key_correlation (normalized_histogram ex_notes True)
                        (key_candidates ! i))) \<rparr>)"
proof -
  have a: "ex_notes \<noteq> []" by (simp add: ex_notes_def)
  have b: "sum_list (key_histogram ex_notes True) \<noteq> 0" by code_simp
  show ?thesis
    using a b C4_estimate_key_first_best [of ex_notes True] by simp
qed

subsection \<open>Main interface\<close>

lemma overflow_bound: "(2::int) ^ 1024 - 2 ^ 970 \<le> \<bar>10 ^ 400\<bar>"
  by simp

lemma make_note_overflow: "make_note ex_overflow_record = Inl OverflowError"
  by (simp add: make_note_def ex_overflow_record_def dict_get_def)

lemma py_float_caught:
  "float_sized (Some v) \<Longrightarrow> py_float v = Inl e \<Longrightarrow> caught e"
  by (cases v) (auto simp: caught_def split: if_splits)

lemma py_int_caught: "py_int v = Inl e \<Longrightarrow> caught e"
  by (cases v) (auto simp: caught_def)

lemma py_float_wrong_typed: "wrong_typed v \<Longrightarrow> \<exists>e. py_float v = Inl e"
  by (cases v) auto

lemma py_int_wrong_typed: "wrong_typed v \<Longrightarrow> \<exists>e. py_int v = Inl e"
  by (cases v) auto

lemma make_note_error_caught:
  assumes "in_float_range d" and "make_note d = Inl e"
  shows "caught e"
proof -
  have r: "float_sized (d ''onset'')" "float_sized (d ''offset'')" "float_sized (d ''confidence'')"
    using assms(1) by (simp_all add: in_float_range_def note_fields_def)
  show ?thesis
    using assms(2) r
    by (auto simp: make_note_def dict_get_def caught_def
        split: option.splits sum.splits dest!: py_float_caught py_int_caught)
qed

lemma make_note_malformed:
  assumes "malformed d"
  shows "\<exists>e. make_note d = Inl e"
proof -
  from assms consider
    "d ''onset'' = None" | v where "d ''onset'' = Some v" "wrong_typed v" |
    "d ''offset'' = None" | v where "d ''offset'' = Some v" "wrong_typed v" |
    "d ''pitch'' = None" | v where "d ''pitch'' = Some v" "wrong_typed v" |
    "d ''confidence'' = None" | v where "d ''confidence'' = Some v" "wrong_typed v"
    by (auto simp: malformed_def note_fields_def split: option.splits)
  then show ?thesis
    by cases
      (auto simp: make_note_def dict_get_def split: option.splits sum.splits
        dest: py_float_wrong_typed py_int_wrong_typed)
qed

lemma convert_notes_skip:
  assumes "malformed d" and "in_float_range d"
  shows "convert_notes (d # rest) = convert_notes rest"
proof -
  from make_note_malformed [OF assms(1)] obtain e where e: "make_note d = Inl e" by blast
  with assms(2) have "caught e" by (rule make_note_error_caught)
  with e show ?thesis by simp
qed

lemma convert_notes_append:
  "convert_notes (xs @ ys) =
     (case convert_notes xs of Inl e \<Rightarrow> Inl e
      | Inr ns \<Rightarrow> (case convert_notes ys of Inl e \<Rightarrow> Inl e | Inr ms \<Rightarrow> Inr (ns @ ms)))"
  by (induction xs) (auto split: sum.splits)

lemma malformed_record_skipped:
  assumes "malformed d" and "in_float_range d"
  shows "process_note_events (xs @ d # ys) = process_note_events (xs @ ys)"
proof -
  have "convert_notes (d # ys) = convert_notes ys"
    using assms by (rule convert_notes_skip)
  then have "convert_notes (xs @ d # ys) = convert_notes (xs @ ys)"
    by (simp only: convert_notes_append)
  then show ?thesis by (simp only: process_note_events_def)
qed

lemma convert_notes_all_malformed:
  "list_all (\<lambda>d. malformed d \<and> in_float_range d) raw_notes \<Longrightarrow> convert_notes raw_notes = Inr []"
  by (induction raw_notes) (simp_all add: convert_notes_skip del: convert_notes.simps(2))

lemma fully_invalid_input_default:
  assumes "list_all (\<lambda>d. malformed d \<and> in_float_range d) raw_notes"
  shows "process_note_events raw_notes
         = Inr ([], \<lparr> i_key = ''C'', i_mode = ''major'', i_confidence = 0.0 \<rparr>)"
  using convert_notes_all_malformed [OF assms] by (simp add: process_note_events_def)

lemma empty_input_default:
  "process_note_events [] = Inr ([], \<lparr> i_key = ''C'', i_mode = ''major'', i_confidence = 0.0 \<rparr>)"
  by (simp add: process_note_events_def)

text \<open>
  C3. The claim is that no exception leaves \<^verbatim>\<open>process_note_events\<close> for any list of
  dicts. The handler catches \<^verbatim>\<open>KeyError\<close>, \<^verbatim>\<open>ValueError\<close> and \<^verbatim>\<open>TypeError\<close>
  only: for the record \<^verbatim>\<open>{'onset': 10**400, 'offset': 1.0, 'pitch': 60, 'confidence': 0.5}\<close>
  the conversion \<^verbatim>\<open>float(10**400)\<close> raises \<^verbatim>\<open>OverflowError\<close>, which leaves the
  function.
\<close>

theorem C3_overflow_escapes:
  "process_note_events [ex_overflow_record] = Inl OverflowError"
  by (simp add: process_note_events_def make_note_overflow caught_def)

text \<open>
  C8. The claim is that a malformed record is skipped and never aborts the batch. Empty
  input and malformed records whose ints fit a float behave so (\<open>empty_input_default\<close>,
  \<open>fully_invalid_input_default\<close>, \<open>malformed_record_skipped\<close>). The record
  \<^verbatim>\<open>{'onset': 10**400, 'offset': None, 'pitch': 60, 'confidence': 0.5}\<close> is malformed
  (its offset is wrong-typed), but its onset is converted first and raises the uncaught
  \<^verbatim>\<open>OverflowError\<close>: the batch is aborted, the valid record after it is not processed.
\<close>

theorem C8_malformed_record_aborts:
  "malformed ex_malformed_overflow_record
   \<and> process_note_events [ex_malformed_overflow_record, ex_good_record] = Inl OverflowError"
  by (simp add: process_note_events_def make_note_def ex_malformed_overflow_record_def
      dict_get_def caught_def malformed_def note_fields_def)

subsection \<open>Pitch smoother\<close>


lemma group_append_keys:
  "map fst (group_append g pc n) = (if pc \<in> set (map fst g) then map fst g else map fst g @ [pc])"
  by (induction g) force+

lemma group_append_map_of:
  "distinct (map fst g) \<Longrightarrow>
   map_of (group_append g pc n) =
     (map_of g)(pc \<mapsto> (case map_of g pc of None \<Rightarrow> [n] | Some evs \<Rightarrow> evs @ [n]))"
proof (induction g)
  case Nil
  then show ?case by simp
next
  case (Cons a g)
  obtain k evs where a: "a = (k, evs)" by (cases a)
  show ?case
  proof (cases "k = pc")
    case True
    then show ?thesis using a by auto
  next
    case False
    with Cons a show ?thesis by (auto simp: fun_upd_twist)
  qed
qed

lemma group_append_distinct:
  "distinct (map fst g) \<Longrightarrow> distinct (map fst (group_append g pc n))"
  by (simp add: group_append_keys)

lemma group_by_pitch_class_snoc:
  "group_by_pitch_class (ns @ [n]) = group_append (group_by_pitch_class ns) (pitch_class n) n"
  by (simp add: group_by_pitch_class_def)

lemma group_by_pitch_class_distinct: "distinct (map fst (group_by_pitch_class ns))"
proof (induction ns rule: rev_induct)
  case Nil
  then show ?case by (simp add: group_by_pitch_class_def)
next
  case (snoc n ns)
  then show ?case by (simp add: group_by_pitch_class_snoc group_append_distinct)
qed

lemma group_by_pitch_class_map_of:
  "map_of (group_by_pitch_class ns) pc =
     (if filter (\<lambda>n. pitch_class n = pc) ns = [] then None
      else Some (filter (\<lambda>n. pitch_class n = pc) ns))"
proof (induction ns rule: rev_induct)
  case Nil
  then show ?case by (simp add: group_by_pitch_class_def)
next
  case (snoc n ns)
  show ?case
  proof (cases "pc = pitch_class n")
    case True
    then show ?thesis
      using snoc
      by (simp add: group_by_pitch_class_snoc group_append_map_of group_by_pitch_class_distinct)
  next
    case False
    then show ?thesis
      using snoc
      by (simp add: group_by_pitch_class_snoc group_append_map_of group_by_pitch_class_distinct)
  qed
qed

lemma group_append_mset:
  "mset (concat (map snd (group_append g pc n))) = mset (concat (map snd g)) + {#n#}"
  by (induction g) auto

lemma group_by_pitch_class_mset:
  "mset (concat (map snd (group_by_pitch_class ns))) = mset ns"
proof (induction ns rule: rev_induct)
  case Nil
  then show ?case by (simp add: group_by_pitch_class_def)
next
  case (snoc n ns)
  then show ?case by (simp add: group_by_pitch_class_snoc group_append_mset)
qed


lemma medfilt3_nth:
  assumes "i < length cs"
  shows "medfilt cs 3 ! i
         = median3 (if i = 0 then 0 else cs ! (i - 1)) (cs ! i)
                   (if i + 1 < length cs then cs ! (i + 1) else 0)"
proof -
  have win: "take 3 (drop i (0 # cs @ [0]))
             = [if i = 0 then 0 else cs ! (i - 1), cs ! i,
                if i + 1 < length cs then cs ! (i + 1) else 0]"
  proof (rule nth_equalityI)
    show "length (take 3 (drop i (0 # cs @ [0])))
          = length [if i = 0 then 0 else cs ! (i - 1), cs ! i,
                    if i + 1 < length cs then cs ! (i + 1) else 0]"
      using assms by simp
  next
    fix j assume "j < length (take 3 (drop i (0 # cs @ [0])))"
    then have j: "j < 3" by simp
    then consider "j = 0" | "j = 1" | "j = 2" by linarith
    then show "take 3 (drop i (0 # cs @ [0])) ! j
          = [if i = 0 then 0 else cs ! (i - 1), cs ! i,
             if i + 1 < length cs then cs ! (i + 1) else 0] ! j"
      using assms
      by cases (auto simp: nth_Cons' nth_append)
  qed
  define f where "f = (\<lambda>i. sort (take 3 (drop i (0 # cs @ [0]))) ! 1)"
  have pad: "(3::nat) div 2 = 1" "replicate 1 (0::real) = [0]"
    by simp_all
  have "medfilt cs 3 = map f [0..<length cs]"
    unfolding medfilt_def f_def Let_def pad by (simp only: append_Cons append_Nil)
  then have "medfilt cs 3 ! i = f i"
    using assms by simp
  also have "f i = median3 (if i = 0 then 0 else cs ! (i - 1)) (cs ! i)
                   (if i + 1 < length cs then cs ! (i + 1) else 0)"
    unfolding f_def median3_def by (simp only: win)
  finally show ?thesis .
qed

lemma length_medfilt: "length (medfilt cs k) = length cs"
  by (simp add: medfilt_def)

lemma smooth_group_eq:
  "smooth_group events =
     (if length events < 3 then sort_key n_onset events
      else smoothed_group (sort_key n_onset events))"
proof (cases "length events \<le> 1")
  case True
  then have "sort_key n_onset events = events"
    by (cases events) (auto simp: length_Suc_conv)
  with True show ?thesis by (simp add: smooth_group_def)
next
  case False
  show ?thesis
  proof (cases "length events < 3")
    case True
    with False show ?thesis
      by (simp add: smooth_group_def MEDIAN_FILTER_SIZE_def Let_def)
  next
    case ge: False
    define s where "s = sort_key n_onset events"
    have len: "length s = length events" by (simp add: s_def)
    have "map (\<lambda>(i, event). \<lparr> n_onset = n_onset event, n_offset = n_offset event,
                                pitch = pitch event,
                                n_confidence = medfilt (map n_confidence s) 3 ! i \<rparr>)
              (enumerate 0 s)
          = smoothed_group s"
      unfolding smoothed_group_def Let_def
      by (rule nth_equalityI) (simp_all add: nth_enumerate_eq medfilt3_nth)
    with False ge show ?thesis
      by (simp add: smooth_group_def MEDIAN_FILTER_SIZE_def Let_def s_def)
  qed
qed

lemma smoothed_group_timing: "map note_timing (smoothed_group s) = map note_timing s"
  by (rule nth_equalityI) (simp_all add: smoothed_group_def Let_def note_timing_def)

lemma smoothed_group_pitch_class:
  "map pitch_class (smoothed_group s) = map pitch_class s"
  by (rule nth_equalityI) (simp_all add: smoothed_group_def Let_def pitch_class_def)

lemma smooth_group_timing:
  "mset (map note_timing (smooth_group events)) = mset (map note_timing events)"
proof -
  have srt: "mset (map note_timing (sort_key n_onset events)) = mset (map note_timing events)"
    by (metis mset_map mset_sort)
  have "mset (map note_timing (smoothed_group (sort_key n_onset events)))
        = mset (map note_timing events)"
    by (simp only: smoothed_group_timing srt)
  with srt show ?thesis
    by (simp only: smooth_group_eq split: if_splits) simp
qed

lemma smooth_group_pitch_class:
  assumes "\<forall>e\<in>set events. pitch_class e = k" and "n \<in> set (smooth_group events)"
  shows "pitch_class n = k"
proof -
  have "set (map pitch_class (smooth_group events)) = set (map pitch_class events)"
    by (simp add: smooth_group_eq smoothed_group_pitch_class del: set_map)
       (simp)
  moreover have "pitch_class n \<in> set (map pitch_class (smooth_group events))"
    using assms(2) by simp
  ultimately show ?thesis using assms(1) by auto
qed

lemma filter_concat_groups:
  assumes "distinct (map fst g)"
    and "\<forall>(k, evs)\<in>set g. \<forall>n\<in>set (F evs). pitch_class n = k"
  shows "filter (\<lambda>n. pitch_class n = pc) (concat (map (\<lambda>(k, evs). F evs) g))
         = (case map_of g pc of None \<Rightarrow> [] | Some evs \<Rightarrow> F evs)"
  using assms
proof (induction g)
  case Nil
  then show ?case by simp
next
  case (Cons a g)
  obtain k evs where a: "a = (k, evs)" by (cases a)
  have same: "\<forall>n\<in>set (F evs). pitch_class n = k" using Cons.prems(2) a by simp
  have IH: "filter (\<lambda>n. pitch_class n = pc) (concat (map (\<lambda>(k, evs). F evs) g))
         = (case map_of g pc of None \<Rightarrow> [] | Some evs \<Rightarrow> F evs)"
    using Cons by simp
  show ?case
  proof (cases "k = pc")
    case True
    then have "map_of g pc = None" using Cons.prems(1) a by (simp add: map_of_eq_None_iff)
    moreover have "filter (\<lambda>n. pitch_class n = pc) (F evs) = F evs"
      using same True by (simp add: filter_id_conv)
    ultimately show ?thesis using a True IH by simp
  next
    case False
    then have "filter (\<lambda>n. pitch_class n = pc) (F evs) = []"
      using same by (simp add: filter_empty_conv)
    then show ?thesis using a False IH by simp
  qed
qed

lemma groups_same_pitch_class:
  assumes "(k, evs) \<in> set (group_by_pitch_class ns)"
  shows "evs = filter (\<lambda>n. pitch_class n = k) ns"
proof -
  have "map_of (group_by_pitch_class ns) k = Some evs"
    using assms group_by_pitch_class_distinct by (simp add: map_of_eq_Some_iff)
  then show ?thesis
    by (simp add: group_by_pitch_class_map_of split: if_splits)
qed

text \<open>
  C6 (amended). For every note list and every pitch class, the output notes of that pitch
  class are the input notes of that pitch class sorted by onset (a stable sort); when
  there are at least three of them, each confidence is replaced by the median of itself
  and its two neighbours in that order, where a missing neighbour at either end counts as
  0 (the zero padding of \<^verbatim>\<open>scipy.signal.medfilt\<close>); with fewer than three the
  confidences are unchanged. Over all pitch classes, the output notes carry the same
  onsets, offsets and pitches as the input notes.
\<close>

theorem C6_smooth_pitch_activity_zero_padded:
  "filter (\<lambda>n. pitch_class n = pc) (smooth_pitch_activity ns)
     = (let events = sort_key n_onset (filter (\<lambda>n. pitch_class n = pc) ns)
        in if length events < 3 then events else smoothed_group events)
   \<and> mset (map note_timing (smooth_pitch_activity ns)) = mset (map note_timing ns)"
proof
  define g where "g = group_by_pitch_class ns"
  have same: "\<forall>(k, evs)\<in>set g. \<forall>n\<in>set (smooth_group evs). pitch_class n = k"
  proof (clarify)
    fix k evs n assume kin: "(k, evs) \<in> set g" and n: "n \<in> set (smooth_group evs)"
    from kin have "evs = filter (\<lambda>n. pitch_class n = k) ns"
      unfolding g_def by (rule groups_same_pitch_class)
    then have "\<forall>e\<in>set evs. pitch_class e = k" by simp
    then show "pitch_class n = k" using n by (rule smooth_group_pitch_class)
  qed
  have flt: "filter (\<lambda>n. pitch_class n = pc) (concat (map (\<lambda>(k, evs). smooth_group evs) g))
        = (case map_of g pc of None \<Rightarrow> [] | Some evs \<Rightarrow> smooth_group evs)"
    using group_by_pitch_class_distinct same unfolding g_def by (rule filter_concat_groups)
  show "filter (\<lambda>n. pitch_class n = pc) (smooth_pitch_activity ns)
     = (let events = sort_key n_onset (filter (\<lambda>n. pitch_class n = pc) ns)
        in if length events < 3 then events else smoothed_group events)"
  proof (cases "ns = []")
    case True
    then show ?thesis by (simp add: smooth_pitch_activity_def)
  next
    case False
    define evs where "evs = filter (\<lambda>n. pitch_class n = pc) ns"
    have "filter (\<lambda>n. pitch_class n = pc) (smooth_pitch_activity ns)
          = (case map_of g pc of None \<Rightarrow> [] | Some evs \<Rightarrow> smooth_group evs)"
      using False flt by (simp only: smooth_pitch_activity_def g_def if_False)
    also have "\<dots> = (if evs = [] then [] else smooth_group evs)"
      by (simp add: g_def group_by_pitch_class_map_of evs_def)
    also have "\<dots> = (if length evs < 3 then sort_key n_onset evs
                       else smoothed_group (sort_key n_onset evs))"
      by (simp add: smooth_group_eq)
    finally show ?thesis
      by (simp add: Let_def evs_def)
  qed
next
  have "mset (map note_timing (concat (map (\<lambda>(k, evs). smooth_group evs) g)))
        = mset (map note_timing (concat (map snd g)))" for g
    by (induction g) (auto simp: smooth_group_timing [unfolded mset_map])
  then have "mset (map note_timing (concat (map (\<lambda>(k, evs). smooth_group evs)
                (group_by_pitch_class ns))))
        = mset (map note_timing ns)"
    by (metis group_by_pitch_class_mset mset_map)
  then show "mset (map note_timing (smooth_pitch_activity ns)) = mset (map note_timing ns)"
    by (cases "ns = []") (simp_all add: smooth_pitch_activity_def)
qed

text \<open>
  C6 as stated fails at the boundary handling: for three notes of one pitch class with
  confidences 0.9, 0.8, 0.7 the code returns 0.8, 0.8, 0.7 (the first window is 0, 0.9,
  0.8), while the edge-replicated filter of the specification returns 0.9, 0.8, 0.7.
\<close>

theorem C6_zero_padding_not_edge_replication:
  "map n_confidence (smooth_pitch_activity ex_same_pitch) = [0.8, 0.8, 0.7]
   \<and> medfilt_edge_replicated (map n_confidence ex_same_pitch) 3 = [0.9, 0.8, 0.7]"
  by code_simp

subsection \<open>The pipeline returns, and its chords are well-formed\<close>


lemma identify_chord_total:
  assumes "\<forall>pc\<in>set pcs. 0 \<le> pc \<and> pc < 12"
  shows "\<exists>r. identify_chord pcs k w = Inr r"
proof (cases "pcs = []")
  case True
  then show ?thesis by (simp add: identify_chord_def)
next
  case False
  then have "Min (set pcs) \<in> set pcs" by (intro Min_in) auto
  then have idx: "list_index note_names (Min (set pcs)) = Inr (note_names ! nat (Min (set pcs)))"
    using assms by (simp add: list_index_note_names)
  show ?thesis
    using False idx roots_loop_foldl [OF assms, of pcs k w "(None, 0)"]
    by (simp add: identify_chord_def split: prod.splits option.splits)
qed

lemma pitch_class_range: "0 \<le> pitch_class n \<and> pitch_class n < 12"
  by (simp add: pitch_class_def)

lemma weights_add_map_fst:
  "map fst (weights_add w pc x) = (if pc \<in> set (map fst w) then map fst w else map fst w @ [pc])"
  by (induction w) force+

lemma weights_add_keys: "set (map fst (weights_add w pc x)) = insert pc (set (map fst w))"
  by (auto simp: weights_add_map_fst simp del: set_map)

lemma foldl_weights_keys:
  "set (map fst (foldl (\<lambda>w n. weights_add w (pitch_class n) (f n)) acc ns))
   = set (map fst acc) \<union> pitch_class ` set ns"
  by (induction ns arbitrary: acc) (auto simp: weights_add_keys simp del: set_map)

lemma window_weights_keys:
  "set (map fst (window_weights ns s e)) = pitch_class ` set ns"
  by (simp add: window_weights_def foldl_weights_keys del: set_map)

lemma significant_subset: "set (significant_pitch_classes w) \<subseteq> set (map fst w)"
proof -
  have "set (take 6 xs) \<subseteq> set xs" for xs :: "int list" by (rule set_take_subset)
  then show ?thesis
    by (fastforce simp: significant_pitch_classes_def Let_def dest: in_set_takeD)
qed

lemma significant_range:
  "pc \<in> set (significant_pitch_classes (window_weights ns s e)) \<Longrightarrow> 0 \<le> pc \<and> pc < 12"
  using significant_subset [of "window_weights ns s e"] window_weights_keys [of ns s e]
    pitch_class_range
  by (auto simp del: set_map)

lemma analyze_window_total: "\<exists>r. analyze_window ns s e k = Inr r"
proof -
  have "\<exists>r. identify_chord (significant_pitch_classes (window_weights ns s e)) k
              (Some (window_weights ns s e)) = Inr r"
    by (rule identify_chord_total) (simp add: significant_range)
  then show ?thesis
    by (auto simp: analyze_window_def Let_def split: sum.splits prod.splits)
qed

lemma window_chord_total: "\<exists>r. window_chord evs k t = Inr r"
  using analyze_window_total by (simp add: window_chord_def Let_def)

lemma windows_loop_total: "\<exists>cs. windows_loop evs k e t = Inr cs"
proof (induction evs k e t rule: windows_loop.induct)
  case (1 evs k e t)
  show ?case
  proof (cases "t < e")
    case False
    then show ?thesis by (subst windows_loop.simps) simp
  next
    case True
    obtain ch where ch: "window_chord evs k t = Inr ch"
      using window_chord_total by blast
    from "1.IH" [OF True ch] obtain cs where
      "windows_loop evs k e (t + (WINDOW_SIZE - WINDOW_OVERLAP)) = Inr cs" by blast
    with True ch show ?thesis by (subst windows_loop.simps) simp
  qed
qed

lemma detect_chords_total: "\<exists>cs. detect_chords_in_windows evs k = Inr cs"
  using windows_loop_total by (simp add: detect_chords_in_windows_def Let_def)

lemma key_candidates_range: "c \<in> set key_candidates \<Longrightarrow> fst c < 12"
  by (auto simp: key_candidates_def)

lemma estimate_key_pc_range:
  "0 \<le> key_pc (estimate_key ns ex) \<and> key_pc (estimate_key ns ex) < 12"
proof (cases "ns = [] \<or> sum_list (key_histogram ns ex) = 0")
  case True
  then show ?thesis by (auto simp: estimate_key_def Let_def)
next
  case False
  define w where "w = normalized_histogram ns ex"
  from key_loop_first_best [of w] obtain i where
    fb: "first_best (\<lambda>c. Some (key_correlation w c)) key_candidates i" and
    fo: "foldl (key_step w) (- 1, 0, ''major'') [0..<12]
           = (key_correlation w (key_candidates ! i), key_payload (key_candidates ! i))"
    by blast
  have "i < length key_candidates" using fb by (simp add: first_best_def)
  then have "fst (key_candidates ! i) < 12" by (intro key_candidates_range) simp
  moreover have "key_pc (estimate_key ns ex) = int (fst (key_candidates ! i))"
    using False fo
    by (simp add: estimate_key_def Let_def w_def normalized_histogram_def key_payload_def)
  ultimately show ?thesis by simp
qed

lemma apply_key_filtering_total:
  assumes "0 \<le> key_pc k \<and> key_pc k < 12"
  shows "apply_key_filtering evs k
         = Inr (if k_confidence k < 0.5 then evs else filter (key_filter_keep k) evs)"
  using assms by (simp add: apply_key_filtering_def Let_def list_index_note_names)

lemma infer_chords_post_key:
  "infer_chords ns =
     (let evs = filter_short_notes (smooth_pitch_activity ns); k = estimate_key evs True
      in case post_key evs k of Inl e \<Rightarrow> Inl e | Inr chords \<Rightarrow> Inr (chords, k))"
  by (simp add: infer_chords_def post_key_def Let_def split: sum.splits)

lemma infer_chords_total: "\<exists>chords k. infer_chords ns = Inr (chords, k)"
proof -
  define evs where "evs = filter_short_notes (smooth_pitch_activity ns)"
  define k where "k = estimate_key evs True"
  have r: "0 \<le> key_pc k \<and> key_pc k < 12" unfolding k_def by (rule estimate_key_pc_range)
  obtain kf where kf: "apply_key_filtering evs k = Inr kf"
    using apply_key_filtering_total [OF r] by blast
  obtain raw where raw: "detect_chords_in_windows kf k = Inr raw"
    using detect_chords_total by blast
  show ?thesis
    using kf raw by (simp add: infer_chords_def Let_def evs_def k_def)
qed




lemma median3_in: "median3 a b c \<in> {a, b, c}"
proof -
  have "sort [a, b, c] ! 1 \<in> set (sort [a, b, c])"
    by (intro nth_mem) simp
  then show ?thesis unfolding median3_def by (simp only: set_sort) simp
qed

lemma smoothed_group_nonneg:
  assumes "\<forall>e\<in>set s. 0 \<le> n_confidence e" and "n \<in> set (smoothed_group s)"
  shows "0 \<le> n_confidence n"
proof -
  from assms(2) obtain i where i: "i < length s" and
    n: "n_confidence n = median3 (if i = 0 then 0 else map n_confidence s ! (i - 1))
                           (map n_confidence s ! i)
                           (if i + 1 < length (map n_confidence s)
                            then map n_confidence s ! (i + 1) else 0)"
    by (auto simp: smoothed_group_def Let_def)
  have "0 \<le> n_confidence (s ! j)" if "j < length s" for j
    using assms(1) that by simp
  then have "0 \<le> x" if "x \<in> {if i = 0 then 0 else map n_confidence s ! (i - 1),
                 map n_confidence s ! i,
                 if i + 1 < length (map n_confidence s)
                            then map n_confidence s ! (i + 1) else 0}" for x
    using that i by (auto split: if_splits)
  then show ?thesis using median3_in n by metis
qed

lemma smooth_group_nonneg:
  assumes "\<forall>e\<in>set evs. 0 \<le> n_confidence e" and "n \<in> set (smooth_group evs)"
  shows "0 \<le> n_confidence n"
proof (cases "length evs < 3")
  case True
  then show ?thesis using assms by (simp add: smooth_group_eq)
next
  case False
  have "\<forall>e\<in>set (sort_key n_onset evs). 0 \<le> n_confidence e" using assms(1) by simp
  moreover have "n \<in> set (smoothed_group (sort_key n_onset evs))"
    using assms(2) False by (simp add: smooth_group_eq)
  ultimately show ?thesis by (rule smoothed_group_nonneg)
qed

lemma smooth_pitch_activity_nonneg:
  assumes "\<forall>e\<in>set ns. 0 \<le> n_confidence e" and "n \<in> set (smooth_pitch_activity ns)"
  shows "0 \<le> n_confidence n"
proof -
  from assms(2) obtain k evs where kin: "(k, evs) \<in> set (group_by_pitch_class ns)"
    and n: "n \<in> set (smooth_group evs)"
    by (auto simp: smooth_pitch_activity_def split: if_splits)
  from kin have "evs = filter (\<lambda>n. pitch_class n = k) ns" by (rule groups_same_pitch_class)
  then have "\<forall>e\<in>set evs. 0 \<le> n_confidence e" using assms(1) by simp
  then show ?thesis using n by (rule smooth_group_nonneg)
qed


lemma weights_add_sum: "sum_list (map snd (weights_add w pc x)) = sum_list (map snd w) + x"
  by (induction w) auto

lemma foldl_weights_sum:
  "sum_list (map snd (foldl (\<lambda>w n. weights_add w (pitch_class n) (f n)) acc ns))
   = sum_list (map snd acc) + sum_list (map f ns)"
  by (induction ns arbitrary: acc) (simp_all add: weights_add_sum)

lemma note_weight_nonneg: "0 \<le> n_confidence n \<Longrightarrow> 0 \<le> note_weight n s e"
  by (simp add: note_weight_def Let_def CONFIDENCE_WEIGHT_DURATION_def)

lemma window_weights_sum_nonneg:
  assumes "\<forall>n\<in>set ns. 0 \<le> n_confidence n"
  shows "0 \<le> sum_list (map snd (window_weights ns s e))"
proof -
  have "0 \<le> sum_list (map (\<lambda>n. note_weight n s e) ns)"
    using assms by (intro sum_list_nonneg) (auto simp: note_weight_nonneg)
  then show ?thesis by (simp add: window_weights_def foldl_weights_sum)
qed

lemma analyze_window_ok:
  assumes "analyze_window ns s e k = Inr (Some c)" and "\<forall>n\<in>set ns. 0 \<le> n_confidence n"
  shows "chord_ok c \<and> c_onset c = s \<and> c_offset c = e"
proof -
  define w where "w = window_weights ns s e"
  define sig where "sig = significant_pitch_classes w"
  from assms(1) have ne: "ns \<noteq> []" and len: "\<not> length sig < MIN_NOTES_PER_CHORD"
    by (auto simp: analyze_window_def Let_def w_def sig_def split: if_splits)
  from assms(1) ne len obtain sym ty where
    c: "c = \<lparr> c_onset = s, c_offset = e, chord_symbol = sym,
              c_confidence = min (sum_list (map snd w) / real (length ns)) 1.0,
              pitch_classes = set sig, root_pc = Min (set sig), chord_type = ty \<rparr>"
    by (auto simp: analyze_window_def Let_def w_def sig_def split: if_splits sum.splits)
  have "sig \<noteq> []" using len by (auto simp: MIN_NOTES_PER_CHORD_def)
  then have root: "Min (set sig) \<in> set sig" by (intro Min_in) auto
  have "0 \<le> sum_list (map snd w)"
    unfolding w_def using assms(2) by (rule window_weights_sum_nonneg)
  then have "0 \<le> sum_list (map snd w) / real (length ns)" by simp
  then show ?thesis using c root by (simp add: chord_ok_def)
qed



lemma analyze_window_span:
  assumes "analyze_window ns s e k = Inr (Some c)"
  shows "c_onset c = s \<and> c_offset c = e"
  using assms
  by (auto simp: analyze_window_def Let_def split: if_splits sum.splits)

lemma window_chord_span:
  assumes "window_chord evs k t = Inr (Some c)"
  shows "c_onset c = t \<and> c_offset c = t + WINDOW_SIZE"
  using assms
  by (auto simp: window_chord_def Let_def split: if_splits dest: analyze_window_span)

lemma window_chord_ok:
  assumes "window_chord evs k t = Inr (Some c)" and "\<forall>n\<in>set evs. 0 \<le> n_confidence n"
  shows "chord_ok c"
proof -
  from assms(1) have "analyze_window (window_notes evs t (t + WINDOW_SIZE)) t (t + WINDOW_SIZE) k
                      = Inr (Some c)"
    by (auto simp: window_chord_def Let_def split: if_splits)
  moreover have "\<forall>n\<in>set (window_notes evs t (t + WINDOW_SIZE)). 0 \<le> n_confidence n"
    using assms(2) by (simp add: window_notes_def)
  ultimately show ?thesis using analyze_window_ok by blast
qed

lemma windows_loop_unfold:
  assumes "t < e" and "window_chord evs k t = Inr ch"
    and "windows_loop evs k e (t + (WINDOW_SIZE - WINDOW_OVERLAP)) = Inr rest"
  shows "windows_loop evs k e t = Inr ((case ch of None \<Rightarrow> [] | Some c \<Rightarrow> [c]) @ rest)"
  using assms by (subst windows_loop.simps) simp

lemma windows_loop_shape:
  assumes "windows_loop evs k e t = Inr cs"
  shows "(\<forall>c\<in>set cs. t \<le> c_onset c \<and> c_offset c = c_onset c + WINDOW_SIZE)
         \<and> sorted_wrt (\<lambda>a b. c_onset a + (WINDOW_SIZE - WINDOW_OVERLAP) \<le> c_onset b) cs"
  using assms
proof (induction evs k e t arbitrary: cs rule: windows_loop.induct)
  case (1 evs k e t)
  show ?case
  proof (cases "t < e")
    case False
    then have "cs = []" using "1.prems" by (subst (asm) windows_loop.simps) simp
    then show ?thesis by simp
  next
    case True
    obtain ch where ch: "window_chord evs k t = Inr ch"
      using window_chord_total by blast
    obtain rest where rest: "windows_loop evs k e (t + (WINDOW_SIZE - WINDOW_OVERLAP)) = Inr rest"
      using windows_loop_total by blast
    have cs: "cs = (case ch of None \<Rightarrow> [] | Some c \<Rightarrow> [c]) @ rest"
      using windows_loop_unfold [OF True ch rest] "1.prems" by simp
    note IH = "1.IH" [OF True ch rest]
    have step: "0 \<le> WINDOW_SIZE - WINDOW_OVERLAP"
      by (simp add: WINDOW_SIZE_def WINDOW_OVERLAP_def)
    show ?thesis
    proof (cases ch)
      case None
      with cs IH step show ?thesis by auto
    next
      case (Some c)
      from window_chord_span ch Some have c: "c_onset c = t" "c_offset c = t + WINDOW_SIZE"
        by auto
      with cs IH step Some show ?thesis by auto
    qed
  qed
qed

lemma windows_loop_ok:
  assumes "windows_loop evs k e t = Inr cs" and "\<forall>n\<in>set evs. 0 \<le> n_confidence n"
  shows "\<forall>c\<in>set cs. chord_ok c"
  using assms
proof (induction evs k e t arbitrary: cs rule: windows_loop.induct)
  case (1 evs k e t)
  show ?case
  proof (cases "t < e")
    case False
    then have "cs = []" using "1.prems"(1) by (subst (asm) windows_loop.simps) simp
    then show ?thesis by simp
  next
    case True
    obtain ch where ch: "window_chord evs k t = Inr ch"
      using window_chord_total by blast
    obtain rest where rest: "windows_loop evs k e (t + (WINDOW_SIZE - WINDOW_OVERLAP)) = Inr rest"
      using windows_loop_total by blast
    have cs: "cs = (case ch of None \<Rightarrow> [] | Some c \<Rightarrow> [c]) @ rest"
      using windows_loop_unfold [OF True ch rest] "1.prems"(1) by simp
    note IH = "1.IH" [OF True ch rest "1.prems"(2)]
    show ?thesis
    proof (cases ch)
      case None
      with cs IH show ?thesis by auto
    next
      case (Some c)
      with ch "1.prems"(2) have "chord_ok c" using window_chord_ok by blast
      with cs IH Some show ?thesis by auto
    qed
  qed
qed

lemma detect_chords_ok:
  assumes "detect_chords_in_windows evs k = Inr cs" and "\<forall>n\<in>set evs. 0 \<le> n_confidence n"
  shows "\<forall>c\<in>set cs. chord_ok c"
proof (cases "evs = []")
  case True
  with assms(1) show ?thesis by (simp add: detect_chords_in_windows_def)
next
  case False
  with assms(1) have "windows_loop (sort_key n_onset evs) k
          (Max (set (map n_offset (sort_key n_onset evs))))
          (n_onset (hd (sort_key n_onset evs))) = Inr cs"
    by (simp add: detect_chords_in_windows_def Let_def)
  moreover have "\<forall>n\<in>set (sort_key n_onset evs). 0 \<le> n_confidence n"
    using assms(2) by simp
  ultimately show ?thesis by (rule windows_loop_ok)
qed


lemma run_chord_cases:
  "run_chord ce lbl a b = []
   \<or> (\<exists>original. find (\<lambda>c. chord_symbol c = lbl) ce = Some original
        \<and> run_chord ce lbl a b =
            [\<lparr> c_onset = a, c_offset = b, chord_symbol = lbl,
               c_confidence = c_confidence original,
               pitch_classes = pitch_classes original,
               root_pc = root_pc original,
               chord_type = chord_type original \<rparr>])"
proof (cases "lbl = ''N''")
  case True
  have "run_chord ce lbl a b = []"
    unfolding run_chord_def using True by (simp only: if_False not_True_eq_False simp_thms)
  then show ?thesis by (rule disjI1)
next
  case False
  show ?thesis
  proof (cases "find (\<lambda>c. chord_symbol c = lbl) ce")
    case None
    have "run_chord ce lbl a b = []"
      unfolding run_chord_def using False None by (simp only: if_True option.case simp_thms)
    then show ?thesis by (rule disjI1)
  next
    case (Some original)
    have "run_chord ce lbl a b =
            [\<lparr> c_onset = a, c_offset = b, chord_symbol = lbl,
               c_confidence = c_confidence original,
               pitch_classes = pitch_classes original,
               root_pc = root_pc original,
               chord_type = chord_type original \<rparr>]"
      unfolding run_chord_def using False Some by (simp only: if_True option.case simp_thms)
    with Some show ?thesis by blast
  qed
qed

lemma run_chord_meta:
  assumes "c \<in> set (run_chord ce lbl a b)"
  shows "\<exists>original\<in>set ce. same_meta c original"
proof -
  from run_chord_cases [of ce lbl a b] assms obtain original where
    f: "find (\<lambda>c. chord_symbol c = lbl) ce = Some original" and
    c: "c = \<lparr> c_onset = a, c_offset = b, chord_symbol = lbl,
               c_confidence = c_confidence original,
               pitch_classes = pitch_classes original,
               root_pc = root_pc original,
               chord_type = chord_type original \<rparr>"
    by auto
  from f have "original \<in> set ce" by (auto simp: find_Some_iff)
  moreover have "same_meta c original" unfolding c by (simp add: same_meta_def)
  ultimately show ?thesis by blast
qed

lemma segment_loop_meta:
  "c \<in> set (segment_loop ce e lbl st prev rest) \<Longrightarrow> \<exists>original\<in>set ce. same_meta c original"
proof (induction ce e lbl st prev rest rule: segment_loop.induct)
  case (1 ce e lbl st prev)
  then show ?case by (auto dest: run_chord_meta)
next
  case (2 ce e lbl st prev s t rest)
  show ?case
  proof (cases "s \<noteq> lbl \<or> rest = []")
    case True
    with "2.prems" have "c \<in> set (run_chord ce lbl st (prev + timeline_resolution))
        \<or> c \<in> set (segment_loop ce e s t t rest)"
      by auto
    then show ?thesis using "2.IH"(1) [OF True] run_chord_meta by blast
  next
    case False
    with "2.prems" have "c \<in> set (segment_loop ce e lbl st t rest)" by auto
    then show ?thesis using "2.IH"(2) [OF False] by blast
  qed
qed

lemma smooth_chord_progression_meta:
  assumes "c \<in> set (smooth_chord_progression cs)"
  shows "\<exists>original\<in>set cs. same_meta c original"
proof (cases "smooth_chord_progression cs = cs")
  case True
  with assms show ?thesis by (auto simp: same_meta_def)
next
  case False
  then obtain e s0 t0 rest where "smooth_chord_progression cs = segment_loop cs e s0 t0 t0 rest
      \<or> smooth_chord_progression cs = []"
    by (auto simp: smooth_chord_progression_def Let_def split: if_splits list.splits)
  with assms show ?thesis using segment_loop_meta by auto
qed

lemma smooth_chord_progression_ok:
  assumes "\<forall>c\<in>set cs. chord_ok c"
  shows "\<forall>c\<in>set (smooth_chord_progression cs). chord_ok c"
  using assms smooth_chord_progression_meta
  by (fastforce simp: chord_ok_def same_meta_def)


lemma merge_pair_ok: "chord_ok a \<Longrightarrow> chord_ok b \<Longrightarrow> chord_ok (merge_pair a b)"
  by (simp add: chord_ok_def merge_pair_def)

lemma merge_loop_ok:
  "chord_ok c \<Longrightarrow> list_all chord_ok rest \<Longrightarrow> list_all chord_ok (merge_loop c rest)"
proof (induction rest arbitrary: c)
  case Nil
  then show ?case by simp
next
  case (Cons a rest)
  then have a: "chord_ok a" and rest: "list_all chord_ok rest" by simp_all
  show ?case
  proof (cases "should_merge c a")
    case True
    have "chord_ok (merge_pair c a)" using Cons.prems(1) a by (rule merge_pair_ok)
    then show ?thesis using True Cons.IH rest by simp
  next
    case False
    then show ?thesis using Cons.IH [OF a rest] Cons.prems(1) by simp
  qed
qed

lemma merge_similar_chords_ok:
  assumes "\<forall>c\<in>set cs. chord_ok c"
  shows "\<forall>c\<in>set (merge_similar_chords cs). chord_ok c"
proof (cases cs)
  case Nil
  then show ?thesis by (simp add: merge_similar_chords_def)
next
  case (Cons a rest)
  then show ?thesis
    using assms merge_loop_ok [of a rest]
    by (auto simp: merge_similar_chords_def list_all_iff)
qed

lemma ensure_stability_set:
  "c \<in> set (ensure_stability cs) \<longleftrightarrow> c \<in> set cs \<and> c_offset c - c_onset c \<ge> MIN_CHORD_DURATION"
  by (auto simp: ensure_stability_def)

lemma post_key_ok:
  assumes "post_key evs k = Inr chords" and "\<forall>n\<in>set evs. 0 \<le> n_confidence n"
  shows "\<forall>c\<in>set chords. chord_ok c \<and> c_offset c - c_onset c \<ge> MIN_CHORD_DURATION"
proof -
  from assms(1) obtain kf raw where kf: "apply_key_filtering evs k = Inr kf"
    and raw: "detect_chords_in_windows kf k = Inr raw"
    and chords: "chords = ensure_stability (merge_similar_chords (smooth_chord_progression
                      (apply_harmony_filtering raw k)))"
    by (auto simp: post_key_def split: sum.splits)
  have "set kf \<subseteq> set evs"
    using kf by (auto simp: apply_key_filtering_def Let_def split: if_splits sum.splits)
  then have "\<forall>n\<in>set kf. 0 \<le> n_confidence n" using assms(2) by auto
  with raw have "\<forall>c\<in>set raw. chord_ok c" by (rule detect_chords_ok)
  then have "\<forall>c\<in>set (apply_harmony_filtering raw k). chord_ok c"
    by (simp add: apply_harmony_filtering_def)
  then have "\<forall>c\<in>set (smooth_chord_progression (apply_harmony_filtering raw k)). chord_ok c"
    by (rule smooth_chord_progression_ok)
  then have "\<forall>c\<in>set (merge_similar_chords (smooth_chord_progression
                 (apply_harmony_filtering raw k))). chord_ok c"
    by (rule merge_similar_chords_ok)
  then show ?thesis unfolding chords by (simp add: ensure_stability_set)
qed

text \<open>
  C1. For every list of well-typed notes the pipeline returns a result, and every chord of
  the final list has a confidence in \<open>[0, 1]\<close>, lasts at least 0.3 seconds (so its onset
  is before its offset), and has its root pitch class among its pitch classes.
\<close>

theorem C1_output_chord_invariants:
  assumes "list_all well_typed_note ns"
  shows "\<exists>chords key. infer_chords ns = Inr (chords, key)
           \<and> (\<forall>c\<in>set chords. 0 \<le> c_confidence c \<and> c_confidence c \<le> 1
                 \<and> c_offset c - c_onset c \<ge> 0.3 \<and> c_onset c < c_offset c
                 \<and> root_pc c \<in> pitch_classes c)"
proof -
  obtain chords key where res: "infer_chords ns = Inr (chords, key)"
    using infer_chords_total by blast
  define evs where "evs = filter_short_notes (smooth_pitch_activity ns)"
  have pk: "post_key evs (estimate_key evs True) = Inr chords"
    using res by (auto simp: infer_chords_post_key Let_def evs_def split: sum.splits)
  have "\<forall>n\<in>set ns. 0 \<le> n_confidence n"
    using assms by (simp add: list_all_iff well_typed_note_def)
  then have "\<forall>n\<in>set (smooth_pitch_activity ns). 0 \<le> n_confidence n"
    using smooth_pitch_activity_nonneg by blast
  then have "\<forall>n\<in>set evs. 0 \<le> n_confidence n"
    by (simp add: evs_def filter_short_notes_def)
  with pk have "\<forall>c\<in>set chords. chord_ok c \<and> c_offset c - c_onset c \<ge> MIN_CHORD_DURATION"
    by (rule post_key_ok)
  then have "\<forall>c\<in>set chords. 0 \<le> c_confidence c \<and> c_confidence c \<le> 1
                 \<and> c_offset c - c_onset c \<ge> 0.3 \<and> c_onset c < c_offset c
                 \<and> root_pc c \<in> pitch_classes c"
    by (auto simp: chord_ok_def MIN_CHORD_DURATION_def)
  with res show ?thesis by blast
qed

theorem C1_witness:
  "list_all well_typed_note ex_notes
   \<and> (\<exists>chords key. infer_chords ex_notes = Inr (chords, key)
           \<and> (\<forall>c\<in>set chords. 0 \<le> c_confidence c \<and> c_confidence c \<le> 1
                 \<and> c_offset c - c_onset c \<ge> 0.3 \<and> c_onset c < c_offset c
                 \<and> root_pc c \<in> pitch_classes c))"
proof -
  have a: "list_all well_typed_note ex_notes"
    by (simp add: ex_notes_def well_typed_note_def)
  show ?thesis
    using a C1_output_chord_invariants [OF a] by blast
qed

subsection \<open>A run of the pipeline: C major, then D minor\<close>



lemma clip_corr_less:
  assumes "corr_less vx (a1, v1) (a2, v2)"
  shows "max (- 1) (min 1 (a1 / sqrt vx / sqrt v1)) < max (- 1) (min 1 (a2 / sqrt vx / sqrt v2))"
proof -
  from assms have pos: "0 < vx" "0 < v1" "0 < v2" "0 < a2"
    and le: "a2\<^sup>2 \<le> vx * v2" and d: "a1 \<le> 0 \<or> a1\<^sup>2 * v2 < a2\<^sup>2 * v1"
    by (simp_all add: corr_less_def)
  have s: "0 < sqrt vx" "0 < sqrt v1" "0 < sqrt v2" using pos by simp_all
  have x2pos: "0 < a2 / sqrt vx / sqrt v2" using pos s by simp
  have "a2 \<le> sqrt (vx * v2)" using le by (rule real_le_rsqrt)
  then have "a2 \<le> sqrt vx * sqrt v2" by (simp add: real_sqrt_mult)
  then have x2le: "a2 / sqrt vx / sqrt v2 \<le> 1" using s by (simp add: field_simps)
  have lt: "a1 / sqrt vx / sqrt v1 < a2 / sqrt vx / sqrt v2"
  proof (cases "a1 \<le> 0")
    case True
    then have "a1 / sqrt vx / sqrt v1 \<le> 0" using s by (simp add: field_simps)
    with x2pos show ?thesis by simp
  next
    case False
    then have a1: "0 < a1" by simp
    from False d have "a1\<^sup>2 * v2 < a2\<^sup>2 * v1" by simp
    then have "sqrt (a1\<^sup>2 * v2) < sqrt (a2\<^sup>2 * v1)" by simp
    then have "a1 * sqrt v2 < a2 * sqrt v1"
      using a1 pos by (simp add: real_sqrt_mult)
    then have "a1 / sqrt v1 < a2 / sqrt v2" using s by (simp add: field_simps)
    then have "a1 / sqrt v1 / sqrt vx < a2 / sqrt v2 / sqrt vx"
      using s(1) by (rule divide_strict_right_mono)
    moreover have "a1 / sqrt v1 / sqrt vx = a1 / sqrt vx / sqrt v1"
      "a2 / sqrt v2 / sqrt vx = a2 / sqrt vx / sqrt v2"
      by (simp_all add: mult.commute)
    ultimately show ?thesis by (simp only:)
  qed
  show ?thesis using lt x2pos x2le by simp
qed

lemma key_correlation_stats:
  assumes "np_cov w w \<noteq> 0" and "snd (candidate_stats w c) \<noteq> 0"
  shows "key_correlation w c
         = max (- 1) (min 1 (fst (candidate_stats w c) / sqrt (np_cov w w)
                              / sqrt (snd (candidate_stats w c))))"
  using assms
  by (simp add: key_correlation_def correlate_with_profile_def np_corrcoef_def
      candidate_stats_def Let_def)

lemma key_correlation_less:
  assumes "corr_less (np_cov w w) (candidate_stats w c1) (candidate_stats w c2)"
  shows "key_correlation w c1 < key_correlation w c2"
proof -
  from assms have nz: "np_cov w w \<noteq> 0" "snd (candidate_stats w c1) \<noteq> 0"
    "snd (candidate_stats w c2) \<noteq> 0"
    by (auto simp: corr_less_def)
  have "corr_less (np_cov w w)
          (fst (candidate_stats w c1), snd (candidate_stats w c1))
          (fst (candidate_stats w c2), snd (candidate_stats w c2))"
    using assms by simp
  from clip_corr_less [OF this] show ?thesis
    by (simp only: key_correlation_stats [OF nz(1) nz(2)] key_correlation_stats [OF nz(1) nz(3)])
qed

lemma clip_corr_ge:
  assumes "0 < vx" and "0 < v" and "0 \<le> a" and "0 \<le> c" and "c\<^sup>2 * (vx * v) \<le> a\<^sup>2"
  shows "c \<le> a / sqrt vx / sqrt v"
proof -
  have "sqrt (c\<^sup>2 * (vx * v)) \<le> sqrt (a\<^sup>2)" using assms(5) by (rule real_sqrt_le_mono)
  then have "c * (sqrt vx * sqrt v) \<le> a"
    using assms by (simp add: real_sqrt_mult)
  then show ?thesis using assms by (simp add: field_simps)
qed

lemma estimate_key_winner:
  assumes "ns \<noteq> []" and "sum_list (key_histogram ns ex) \<noteq> 0"
    and "i < length key_candidates"
    and "\<And>j. j < length key_candidates \<Longrightarrow> j \<noteq> i \<Longrightarrow>
           key_correlation (normalized_histogram ns ex) (key_candidates ! j)
           < key_correlation (normalized_histogram ns ex) (key_candidates ! i)"
  shows "estimate_key ns ex
         = \<lparr> key_pc = int (fst (key_candidates ! i)), mode = snd (key_candidates ! i),
             k_confidence = max 0 (min 1 (key_correlation (normalized_histogram ns ex)
                                             (key_candidates ! i))) \<rparr>"
proof -
  define w where "w = normalized_histogram ns ex"
  from key_loop_first_best [of w] obtain i' where
    fb: "first_best (\<lambda>c. Some (key_correlation w c)) key_candidates i'" and
    fo: "foldl (key_step w) (- 1, 0, ''major'') [0..<12]
           = (key_correlation w (key_candidates ! i'), key_payload (key_candidates ! i'))"
    by blast
  have "i' = i"
  proof (rule ccontr)
    assume ne: "i' \<noteq> i"
    from fb have i': "i' < length key_candidates"
      and mx: "key_correlation w (key_candidates ! i) \<le> key_correlation w (key_candidates ! i')"
      using assms(3) by (auto simp: first_best_def)
    from assms(4) [OF i' ne] mx show False by (simp add: w_def)
  qed
  with fo show ?thesis
    using assms(1,2)
    by (simp add: estimate_key_def Let_def w_def normalized_histogram_def key_payload_def)
qed

lemma ex_notes_smoothed: "filter_short_notes (smooth_pitch_activity ex_notes) = ex_notes"
  by code_simp

lemma ex_hist_eq: "normalized_histogram ex_notes True = ex_hist"
  by code_simp

lemma ex_hist_var: "np_cov ex_hist ex_hist = 871 / 114444"
  by (simp add: ex_hist_def np_cov_def np_mean_def)

lemma major_profile_eval:
  "major_profile = [635 / 4179, 223 / 4179, 116 / 1393, 233 / 4179, 146 / 1393, 409 / 4179,
                    12 / 199, 173 / 1393, 239 / 4179, 122 / 1393, 229 / 4179, 96 / 1393]"
  by (simp add: major_profile_def MAJOR_PROFILE_def)

lemma minor_profile_eval:
  "minor_profile = [633 / 4451, 268 / 4451, 352 / 4451, 538 / 4451, 260 / 4451, 353 / 4451,
                    254 / 4451, 475 / 4451, 398 / 4451, 269 / 4451, 334 / 4451, 317 / 4451]"
  by (simp add: minor_profile_def MINOR_PROFILE_def)

lemma key_candidates_eval:
  "key_candidates =
     [(0, ''major''), (0, ''minor''), (1, ''major''), (1, ''minor''), (2, ''major''),
      (2, ''minor''), (3, ''major''), (3, ''minor''), (4, ''major''), (4, ''minor''),
      (5, ''major''), (5, ''minor''), (6, ''major''), (6, ''minor''), (7, ''major''),
      (7, ''minor''), (8, ''major''), (8, ''minor''), (9, ''major''), (9, ''minor''),
      (10, ''major''), (10, ''minor''), (11, ''major''), (11, ''minor'')]"
  by (simp add: key_candidates_def upt_rec)

lemma ex_stats_eq: "map (candidate_stats ex_hist) key_candidates = ex_stats"
  by (simp add: key_candidates_eval candidate_stats_def major_profile_eval minor_profile_eval
      np_roll_def upt_rec ex_hist_def np_cov_def np_mean_def ex_stats_def)

lemma ex_check:
  "list_all (\<lambda>p. corr_less (871 / 114444) p (181 / 78804, 36469 / 36591324)) (tl ex_stats)"
  by (simp add: ex_stats_def corr_less_def power2_eq_square)

lemma ex_stats_nth:
  assumes "j < 24"
  shows "candidate_stats ex_hist (key_candidates ! j) = ex_stats ! j"
proof -
  have "length key_candidates = 24" by (simp add: key_candidates_eval)
  with assms have "map (candidate_stats ex_hist) key_candidates ! j
                   = candidate_stats ex_hist (key_candidates ! j)"
    by simp
  then show ?thesis by (simp only: ex_stats_eq)
qed

lemma ex_key_less:
  assumes "j < length key_candidates" and "j \<noteq> 0"
  shows "key_correlation ex_hist (key_candidates ! j) < key_correlation ex_hist (key_candidates ! 0)"
proof -
  have len: "length key_candidates = 24" by (simp add: key_candidates_eval)
  have j: "j < 24" using assms(1) len by simp
  have l: "length (tl ex_stats) = 23" by (simp add: ex_stats_def)
  have "j - 1 < length (tl ex_stats)" using j assms(2) l by simp
  with ex_check have "corr_less (871 / 114444) (tl ex_stats ! (j - 1)) (181 / 78804, 36469 / 36591324)"
    by (simp only: list_all_length)
  moreover have "tl ex_stats ! (j - 1) = ex_stats ! j"
    using assms(2) j l by (simp add: nth_tl)
  moreover have "ex_stats ! 0 = (181 / 78804, 36469 / 36591324)" by (simp add: ex_stats_def)
  ultimately have "corr_less (np_cov ex_hist ex_hist) (candidate_stats ex_hist (key_candidates ! j))
                    (candidate_stats ex_hist (key_candidates ! 0))"
    using ex_stats_nth [OF j] ex_stats_nth [of 0] by (simp add: ex_hist_var)
  then show ?thesis by (rule key_correlation_less)
qed

lemma ex_key_confidence:
  "0.6 \<le> max 0 (min 1 (key_correlation ex_hist (key_candidates ! 0)))"
proof -
  have st: "candidate_stats ex_hist (key_candidates ! 0) = (181 / 78804, 36469 / 36591324)"
    using ex_stats_nth [of 0] by (simp add: ex_stats_def)
  have kc: "key_correlation ex_hist (key_candidates ! 0)
        = max (- 1) (min 1 ((181 / 78804) / sqrt (871 / 114444) / sqrt (36469 / 36591324)))"
    using key_correlation_stats [of ex_hist "key_candidates ! 0"]
    by (simp add: st ex_hist_var)
  have "0.6 \<le> (181 / 78804) / sqrt (871 / 114444) / sqrt (36469 / 36591324 :: real)"
    by (rule clip_corr_ge) (simp_all add: power2_eq_square)
  then show ?thesis unfolding kc by simp
qed

lemma ex_key_eval:
  "estimate_key ex_notes True
   = \<lparr> key_pc = 0, mode = ''major'',
       k_confidence = max 0 (min 1 (key_correlation ex_hist (key_candidates ! 0))) \<rparr>"
proof -
  have a: "ex_notes \<noteq> []" by (simp add: ex_notes_def)
  have b: "sum_list (key_histogram ex_notes True) \<noteq> 0" by code_simp
  have c: "0 < length key_candidates" by (simp add: key_candidates_eval)
  have "estimate_key ex_notes True
         = \<lparr> key_pc = int (fst (key_candidates ! 0)), mode = snd (key_candidates ! 0),
             k_confidence = max 0 (min 1 (key_correlation (normalized_histogram ex_notes True)
                                             (key_candidates ! 0))) \<rparr>"
    using a b c
  proof (rule estimate_key_winner)
    fix j assume "j < length key_candidates" and "j \<noteq> 0"
    then show "key_correlation (normalized_histogram ex_notes True) (key_candidates ! j)
           < key_correlation (normalized_histogram ex_notes True) (key_candidates ! 0)"
      unfolding ex_hist_eq by (rule ex_key_less)
  qed
  then show ?thesis by (simp add: ex_hist_eq key_candidates_eval)
qed



lemma key_equiv_scale_pcs: "key_equiv k k' \<Longrightarrow> scale_pcs k = scale_pcs k'"
  by (simp add: key_equiv_def scale_pcs_def)

lemma key_equiv_is_in_key: "key_equiv k k' \<Longrightarrow> is_in_key pc k = is_in_key pc k'"
  by (simp add: is_in_key_def key_equiv_scale_pcs) (simp add: key_equiv_def)

lemma key_equiv_chord_score:
  "key_equiv k k' \<Longrightarrow> chord_score pcs k w rt t = chord_score pcs k' w rt t"
  by (simp add: chord_score_def key_equiv_is_in_key [of k k'] split: prod.splits)
     (simp add: key_equiv_def)

lemma key_equiv_test_step:
  "key_equiv k k' \<Longrightarrow> test_step pcs k w rt nm = test_step pcs k' w rt nm"
  by (intro ext) (simp add: test_step_def key_equiv_chord_score [of k k'])

lemma key_equiv_roots_loop:
  "key_equiv k k' \<Longrightarrow> roots_loop pcs k w st roots = roots_loop pcs k' w st roots"
  by (induction roots arbitrary: st)
     (simp_all add: key_equiv_test_step [of k k'] split: sum.splits)

lemma key_equiv_identify_chord:
  "key_equiv k k' \<Longrightarrow> identify_chord pcs k w = identify_chord pcs k' w"
  by (simp add: identify_chord_def key_equiv_roots_loop [of k k'])

lemma key_equiv_analyze_window:
  "key_equiv k k' \<Longrightarrow> analyze_window ns s e k = analyze_window ns s e k'"
  by (simp add: analyze_window_def Let_def key_equiv_identify_chord [of k k'])

lemma key_equiv_window_chord:
  "key_equiv k k' \<Longrightarrow> window_chord evs k t = window_chord evs k' t"
  by (simp add: window_chord_def Let_def key_equiv_analyze_window [of k k'])

lemma key_equiv_windows_loop:
  "key_equiv k k' \<Longrightarrow> windows_loop evs k e t = windows_loop evs k' e t"
proof (induction evs k e t rule: windows_loop.induct)
  case (1 evs k e t)
  note eq = key_equiv_window_chord [OF "1.prems", of evs t]
  have L: "windows_loop evs k e t =
     (if t < e
      then
        case window_chord evs k t of
          Inl e \<Rightarrow> Inl e
        | Inr chord \<Rightarrow>
            (case windows_loop evs k e (t + (WINDOW_SIZE - WINDOW_OVERLAP)) of
               Inl e \<Rightarrow> Inl e
             | Inr chords \<Rightarrow> Inr ((case chord of None \<Rightarrow> [] | Some c \<Rightarrow> [c]) @ chords))
      else Inr [])"
    by (rule windows_loop.simps)
  have R: "windows_loop evs k' e t =
     (if t < e
      then
        case window_chord evs k' t of
          Inl e \<Rightarrow> Inl e
        | Inr chord \<Rightarrow>
            (case windows_loop evs k' e (t + (WINDOW_SIZE - WINDOW_OVERLAP)) of
               Inl e \<Rightarrow> Inl e
             | Inr chords \<Rightarrow> Inr ((case chord of None \<Rightarrow> [] | Some c \<Rightarrow> [c]) @ chords))
      else Inr [])"
    by (rule windows_loop.simps)
  show ?case
  proof (cases "t < e")
    case False
    then show ?thesis by (simp add: L R)
  next
    case True
    obtain ch where ch: "window_chord evs k t = Inr ch"
      using window_chord_total by blast
    have IH: "windows_loop evs k e (t + (WINDOW_SIZE - WINDOW_OVERLAP))
              = windows_loop evs k' e (t + (WINDOW_SIZE - WINDOW_OVERLAP))"
      using "1.IH" [OF True ch "1.prems"] .
    show ?thesis
      using True ch eq IH by (simp add: L R)
  qed
qed

lemma key_equiv_detect:
  "key_equiv k k' \<Longrightarrow> detect_chords_in_windows evs k = detect_chords_in_windows evs k'"
  by (simp add: detect_chords_in_windows_def Let_def key_equiv_windows_loop [of k k'])

lemma key_equiv_key_filter_keep:
  "key_equiv k k' \<Longrightarrow> key_filter_keep k = key_filter_keep k'"
  by (intro ext) (simp add: key_filter_keep_def key_equiv_scale_pcs [of k k'])

lemma key_equiv_apply_key_filtering:
  "key_equiv k k' \<Longrightarrow> apply_key_filtering evs k = apply_key_filtering evs k'"
  by (simp add: apply_key_filtering_def Let_def key_equiv_key_filter_keep [of k k'])
     (simp add: key_equiv_def)

lemma key_equiv_harmony_keep:
  "key_equiv k k' \<Longrightarrow> harmony_keep cs k = harmony_keep cs k'"
  by (intro ext)
     (simp add: harmony_keep_def is_chord_root_in_key_def key_equiv_is_in_key [of k k'],
      simp add: key_equiv_def)

lemma key_equiv_post_key:
  assumes "key_equiv k k'"
  shows "post_key evs k = post_key evs k'"
proof -
  have a: "apply_key_filtering evs k = apply_key_filtering evs k'"
    using assms by (rule key_equiv_apply_key_filtering)
  have d: "detect_chords_in_windows kf k = detect_chords_in_windows kf k'" for kf
    using assms by (rule key_equiv_detect)
  have h: "apply_harmony_filtering raw k = apply_harmony_filtering raw k'" for raw
    by (simp add: apply_harmony_filtering_def key_equiv_harmony_keep [OF assms])
  show ?thesis
    by (simp add: post_key_def a d h cong: sum.case_cong)
qed

lemma ex_post_key_rounded: "post_key ex_notes ex_key_rounded = Inr [ex_chord_C, ex_chord_Dm]"
  by code_simp

lemma ex_key_equiv: "key_equiv (estimate_key ex_notes True) ex_key_rounded"
proof -
  define conf where "conf = max 0 (min 1 (key_correlation ex_hist (key_candidates ! 0)))"
  have "0.6 \<le> conf" unfolding conf_def by (rule ex_key_confidence)
  moreover have "estimate_key ex_notes True
                 = \<lparr> key_pc = 0, mode = ''major'', k_confidence = conf \<rparr>"
    unfolding conf_def by (rule ex_key_eval)
  ultimately show ?thesis
    by (simp add: key_equiv_def ex_key_rounded_def)
qed

lemma ex_infer_chords:
  "infer_chords ex_notes = Inr ([ex_chord_C, ex_chord_Dm], estimate_key ex_notes True)"
proof -
  have "post_key ex_notes (estimate_key ex_notes True) = Inr [ex_chord_C, ex_chord_Dm]"
    using key_equiv_post_key [OF ex_key_equiv] ex_post_key_rounded by simp
  then show ?thesis
    by (simp add: infer_chords_post_key ex_notes_smoothed)
qed

end
